theory Spec2Isabelle
  imports Main "HOL-Library.Word"
begin

section \<open>JavaScript strings\<close>

text \<open>
  A JavaScript string is a sequence of UTF-16 code units. The converter only looks at
  code units (\<open>split\<close>, \<open>startsWith\<close>, \<open>substring\<close>, \<open>trim\<close> and regular
  expressions without the \<open>u\<close> flag), so a string is a list of 16-bit words.
  \<open>js\<close> embeds an ASCII literal.
\<close>

type_synonym jschar = "16 word"
type_synonym jsstring = "jschar list"

definition js :: "string \<Rightarrow> jsstring" where
  "js s = map (\<lambda>c. of_nat (of_char c)) s"

abbreviation NL :: jschar where "NL \<equiv> 0x0A"
abbreviation STAR :: jschar where "STAR \<equiv> 0x2A"

text \<open>
  ECMAScript \<open>WhiteSpace\<close> and \<open>LineTerminator\<close>: what \<open>String.prototype.trim\<close>
  strips and what \<open>\s\<close> matches. The dot of a regular expression matches every code
  unit that is not a line terminator; \<open>\d\<close> matches the ASCII digits.
\<close>

definition isLineTerminator :: "jschar \<Rightarrow> bool" where
  "isLineTerminator c = (c = 0x0A \<or> c = 0x0D \<or> c = 0x2028 \<or> c = 0x2029)"

definition isWhiteSpace :: "jschar \<Rightarrow> bool" where
  "isWhiteSpace c =
     (c = 0x09 \<or> c = 0x0A \<or> c = 0x0B \<or> c = 0x0C \<or> c = 0x0D \<or> c = 0x20 \<or> c = 0xA0
      \<or> c = 0x1680 \<or> (0x2000 \<le> c \<and> c \<le> 0x200A) \<or> c = 0x2028 \<or> c = 0x2029
      \<or> c = 0x202F \<or> c = 0x205F \<or> c = 0x3000 \<or> c = 0xFEFF)"

definition isDigit :: "jschar \<Rightarrow> bool" where
  "isDigit c = (0x30 \<le> c \<and> c \<le> 0x39)"

definition trim :: "jsstring \<Rightarrow> jsstring" where
  "trim s = rev (dropWhile isWhiteSpace (rev (dropWhile isWhiteSpace s)))"

definition startsWith :: "jsstring \<Rightarrow> jsstring \<Rightarrow> bool" where
  "startsWith s p = (take (length p) s = p)"

text \<open>\<open>s.split('\n')\<close>: the pieces between newlines; never the empty array.\<close>

fun split_nl :: "jsstring \<Rightarrow> jsstring list" where
  "split_nl [] = [[]]"
| "split_nl (c # cs) =
     (if c = NL then [] # split_nl cs
      else (case split_nl cs of [] \<Rightarrow> [[c]] | l # ls \<Rightarrow> (c # l) # ls))"

text \<open>The template literal \<open>`${listIndex}`\<close>: the decimal digits of a positive integer.\<close>

fun numToString :: "nat \<Rightarrow> jsstring" where
  "numToString n =
     (if n < 10 then [0x30 + of_nat n]
      else numToString (n div 10) @ [0x30 + of_nat (n mod 10)])"

declare numToString.simps [simp del]

section \<open>The Delta document model\<close>

text \<open>
  An operation of a Quill Delta is \<open>{insert, attributes?}\<close>. \<open>insert\<close> is a string
  or an embed object; the editor's only embed is \<open>{emoji: {value, source?}}\<close>
  (\<open>EmojiBlotValue\<close>). The attributes the converter reads are \<open>bold\<close>, \<open>italic\<close>,
  \<open>underline\<close>, \<open>blockquote\<close> (tested for truthiness, so booleans) and \<open>list\<close>,
  compared with \<open>'ordered'\<close> and \<open>'bullet'\<close> and otherwise tested for truthiness:
  \<open>OtherList\<close> stands for any other non-empty value, \<open>None\<close> for an absent one.
\<close>

record EmojiBlotValue =
  emoji_value :: jsstring
  emoji_source :: "jsstring option"

datatype InsertVal = Str jsstring | Embed EmojiBlotValue

datatype ListFmt = Ordered | Bullet | OtherList

record Attrs =
  bold :: bool
  italic :: bool
  underline :: bool
  list_fmt :: "ListFmt option"
  blockquote :: bool

record Op =
  insert_val :: InsertVal
  attributes :: "Attrs option"

type_synonym Delta = "Op list"

definition noAttrs :: Attrs where
  "noAttrs = \<lparr>bold = False, italic = False, underline = False, list_fmt = None,
     blockquote = False\<rparr>"

definition textOp :: "jsstring \<Rightarrow> Op" where
  "textOp t = \<lparr>insert_val = Str t, attributes = None\<rparr>"

definition fmtOp :: "jsstring \<Rightarrow> Attrs \<Rightarrow> Op" where
  "fmtOp t a = \<lparr>insert_val = Str t, attributes = Some a\<rparr>"

definition embedOp :: "EmojiBlotValue \<Rightarrow> Op" where
  "embedOp e = \<lparr>insert_val = Embed e, attributes = None\<rparr>"

section \<open>deltaToMarkdown\<close>

text \<open>
  \<open>nextOp && typeof nextOp.insert === 'string' && nextOp.insert === '\n' &&
  nextOp.attributes && (nextOp.attributes.list || nextOp.attributes.blockquote)\<close>,
  where \<open>nextOp\<close> is \<open>ops[i + 1]\<close> or \<open>null\<close>: the argument is the list of the
  operations after index \<open>i\<close>.
\<close>

definition isFormattedNewline :: "Op \<Rightarrow> bool" where
  "isFormattedNewline nextOp =
     (insert_val nextOp = Str [NL] \<and>
      (case attributes nextOp of None \<Rightarrow> False
       | Some a \<Rightarrow> (case list_fmt a of Some l \<Rightarrow> True | None \<Rightarrow> blockquote a)))"

definition nextIsFormattedNewline :: "Op list \<Rightarrow> bool" where
  "nextIsFormattedNewline rest =
     (case rest of [] \<Rightarrow> False | nextOp # others \<Rightarrow> isFormattedNewline nextOp)"

definition nextAttributes :: "Op list \<Rightarrow> Attrs" where
  "nextAttributes rest =
     (case rest of [] \<Rightarrow> noAttrs
      | nextOp # others \<Rightarrow> (case attributes nextOp of None \<Rightarrow> noAttrs | Some a \<Rightarrow> a))"

text \<open>The line prefix and the list counter after it.\<close>

definition linePrefix :: "nat \<Rightarrow> Attrs \<Rightarrow> jsstring \<times> nat" where
  "linePrefix listIndex a =
     (if list_fmt a = Some Ordered then (numToString listIndex @ js ''. '', listIndex + 1)
      else if list_fmt a = Some Bullet then (js ''- '', listIndex)
      else if blockquote a then (js ''> '', listIndex)
      else ([], listIndex))"

text \<open>The three inline wrappers, applied in the order of the source's three \<open>if\<close>s.\<close>

definition inlineFormat :: "Attrs \<Rightarrow> jsstring \<Rightarrow> jsstring" where
  "inlineFormat a text =
     (let t1 = (if bold a then js ''**'' @ text @ js ''**'' else text);
          t2 = (if italic a then js ''*'' @ t1 @ js ''*'' else t1);
          t3 = (if underline a then js ''<u>'' @ t2 @ js ''</u>'' else t2)
      in t3)"

text \<open>
  The body of the \<open>for\<close> loop on one string operation: from \<open>listIndex\<close>,
  \<open>isStartOfLine\<close> and \<open>markdown\<close> to their values after the iteration.
\<close>

definition emitStep ::
  "jsstring \<Rightarrow> Attrs option \<Rightarrow> Op list \<Rightarrow> nat \<times> bool \<times> jsstring \<Rightarrow> nat \<times> bool \<times> jsstring" where
  "emitStep text attrs rest st =
     (case st of (listIndex, isStartOfLine, markdown) \<Rightarrow>
        (let fmtNext = nextIsFormattedNewline rest;
             addPrefix = (isStartOfLine \<and> fmtNext \<and> text \<noteq> [NL]);
             pfx = (if addPrefix then linePrefix listIndex (nextAttributes rest)
                    else ([], listIndex));
             isStartOfLine1 = (if addPrefix then False else isStartOfLine);
             text1 = (case attrs of None \<Rightarrow> text
                      | Some a \<Rightarrow> if text \<noteq> [NL] then inlineFormat a text else text);
             newline = (text1 = [NL])
         in (if newline \<and> \<not> fmtNext then 1 else snd pfx,
             if newline then True else isStartOfLine1,
             markdown @ fst pfx @ text1)))"

fun emitLoop :: "Op list \<Rightarrow> nat \<times> bool \<times> jsstring \<Rightarrow> jsstring" where
  "emitLoop [] st = snd (snd st)"
| "emitLoop (op # rest) st =
     (case insert_val op of
        Embed e \<Rightarrow> emitLoop rest st
      | Str text \<Rightarrow> emitLoop rest (emitStep text (attributes op) rest st))"

definition deltaToMarkdown :: "Delta \<Rightarrow> jsstring" where
  "deltaToMarkdown ops = trim (emitLoop ops (1, True, []))"

section \<open>Delta.insert\<close>

text \<open>
  \<open>Delta\<close> is the class of the quill-delta library that Quill re-exports
  (\<^verbatim>\<open>import Quill, { Delta } from '@signalapp/quill-cjs'\<close>). Its
  \<open>insert(arg, attributes)\<close> returns the delta unchanged for the empty string
  (\<^verbatim>\<open>if (typeof arg === 'string' && arg.length === 0) return this;\<close>), stores the
  attributes only when they are an object with at least one key, and hands the operation
  to \<open>push\<close>. When the last operation and the new one are string inserts with equal
  attributes, \<open>push\<close> replaces the last operation by their concatenation
  (\<^verbatim>\<open>this.ops[index - 1] = { insert: lastOp.insert + newOp.insert }\<close>, with the
  attributes of the new operation); otherwise it appends the new operation. The other
  branches of \<open>push\<close> concern \<open>delete\<close> and \<open>retain\<close> operations, which the
  converter never creates.
\<close>

definition Delta_push :: "Delta \<Rightarrow> Op \<Rightarrow> Delta" where
  "Delta_push ops newOp =
     (if ops = [] then [newOp]
      else (case (insert_val (last ops), insert_val newOp) of
              (Str a, Str b) \<Rightarrow>
                if attributes newOp = attributes (last ops)
                then butlast ops @ [\<lparr>insert_val = Str (a @ b), attributes = attributes newOp\<rparr>]
                else ops @ [newOp]
            | (Str a, Embed e) \<Rightarrow> ops @ [newOp]
            | (Embed e, b) \<Rightarrow> ops @ [newOp]))"

text \<open>An attribute object without keys is not stored.\<close>

definition normAttrs :: "Attrs option \<Rightarrow> Attrs option" where
  "normAttrs a = (if a = Some noAttrs then None else a)"

definition Delta_insert :: "Delta \<Rightarrow> jsstring \<times> Attrs option \<Rightarrow> Delta" where
  "Delta_insert ops call =
     (case call of (arg, attrs) \<Rightarrow>
        if arg = [] then ops
        else Delta_push ops \<lparr>insert_val = Str arg, attributes = normAttrs attrs\<rparr>)"

section \<open>markdownToDelta\<close>

text \<open>
  \<open>line.match(/^(\d+)\.\s+(.*)$/)\<close>. The quantifiers are greedy and the pattern is
  anchored at both ends: the digits are the longest run of digits, a dot follows, then
  the longest non-empty run of white space, and the rest must be free of line
  terminators (a shorter run of white space would leave the same terminator to the
  dot). The result is the pair of the two groups.
\<close>

definition orderedMatch :: "jsstring \<Rightarrow> (jsstring \<times> jsstring) option" where
  "orderedMatch line =
     (let ds = takeWhile isDigit line; r1 = dropWhile isDigit line
      in if ds = [] then None
         else (case r1 of [] \<Rightarrow> None
               | c # r2 \<Rightarrow>
                   if c = 0x2E \<and> takeWhile isWhiteSpace r2 \<noteq> []
                      \<and> list_all (\<lambda>x. \<not> isLineTerminator x) (dropWhile isWhiteSpace r2)
                   then Some (ds, dropWhile isWhiteSpace r2) else None))"

text \<open>
  \<open>/\*\*(.+?)\*\*/g\<close> tried at the start of \<open>cs\<close>, after the opening \<open>**\<close>: the
  lazy group takes one more code unit at a time (never a line terminator) until
  \<open>**\<close> follows. The result is the group and what follows the match.
\<close>

fun boldInner :: "jsstring \<Rightarrow> jsstring \<Rightarrow> (jsstring \<times> jsstring) option" where
  "boldInner acc [] = None"
| "boldInner acc (c # cs) =
     (if isLineTerminator c then None
      else if startsWith cs (js ''**'') then Some (acc @ [c], drop 2 cs)
      else boldInner (acc @ [c]) cs)"

text \<open>
  \<open>boldRegex.exec(line)\<close> on \<open>line.substring(boldRegex.lastIndex)\<close>: the leftmost
  match. The result \<open>(pre, inner, rest)\<close> is the text between \<open>lastIndex\<close> and
  \<open>match.index\<close>, the group \<open>match[1]\<close>, and the text from
  \<open>match.index + match[0].length\<close> on, which is both the regular expression's new
  \<open>lastIndex\<close> and the loop's.
\<close>

fun boldRegex_exec :: "jsstring \<Rightarrow> (jsstring \<times> jsstring \<times> jsstring) option" where
  "boldRegex_exec [] = None"
| "boldRegex_exec (c # cs) =
     (case (if startsWith (c # cs) (js ''**'') then boldInner [] (drop 2 (c # cs)) else None) of
        Some (inner, rest) \<Rightarrow> Some ([], inner, rest)
      | None \<Rightarrow>
          (case boldRegex_exec cs of None \<Rightarrow> None
           | Some (pre, inner, rest) \<Rightarrow> Some (c # pre, inner, rest)))"

record Segment =
  seg_text :: jsstring
  seg_bold :: bool
  seg_italic :: bool
  seg_underline :: bool

definition plainSegment :: "jsstring \<Rightarrow> Segment" where
  "plainSegment t = \<lparr>seg_text = t, seg_bold = False, seg_italic = False, seg_underline = False\<rparr>"

definition boldSegment :: "jsstring \<Rightarrow> Segment" where
  "boldSegment t = \<lparr>seg_text = t, seg_bold = True, seg_italic = False, seg_underline = False\<rparr>"

lemma boldInner_shorter: "boldInner acc cs = Some (inner, rest) \<Longrightarrow> length rest < length cs"
  by (induction cs arbitrary: acc) (fastforce split: if_splits)+

lemma boldRegex_exec_shorter:
  "boldRegex_exec xs = Some (pre, inner, rest) \<Longrightarrow> length rest < length xs"
proof (induction xs arbitrary: pre)
  case Nil
  then show ?case by simp
next
  case (Cons c cs)
  show ?case
  proof (cases "if startsWith (c # cs) (js ''**'') then boldInner [] (drop 2 (c # cs)) else None")
    case None
    with Cons.prems obtain pre' where "boldRegex_exec cs = Some (pre', inner, rest)"
      by (auto split: option.splits)
    from Cons.IH [OF this] show ?thesis by simp
  next
    case (Some m)
    with Cons.prems have m: "m = (inner, rest)"
      by (auto split: prod.splits)
    from Some have "boldInner [] (drop 2 (c # cs)) = Some m"
      by (auto split: if_splits)
    with m have "length rest < length (drop 2 (c # cs))"
      using boldInner_shorter by blast
    then show ?thesis by simp
  qed
qed

text \<open>
  The \<open>while\<close> loop over the bold matches and the \<open>if\<close> after it, on
  \<open>line.substring(lastIndex)\<close>: the segments pushed from \<open>lastIndex\<close> on.
\<close>

function extractBold :: "jsstring \<Rightarrow> Segment list" where
  "extractBold cur =
     (case boldRegex_exec cur of
        None \<Rightarrow> (if cur \<noteq> [] then [plainSegment cur] else [])
      | Some (pre, inner, rest) \<Rightarrow>
          (if pre \<noteq> [] then [plainSegment pre] else []) @ [boldSegment inner] @ extractBold rest)"
  by pat_completeness auto
termination
  by (relation "measure length") (auto dest: boldRegex_exec_shorter)

declare extractBold.simps [simp del]

text \<open>The attributes of one segment: \<open>undefined\<close> when no key was set.\<close>

definition segmentInsert :: "Segment \<Rightarrow> jsstring \<times> Attrs option" where
  "segmentInsert seg =
     (let attrs = noAttrs\<lparr>bold := seg_bold seg, italic := seg_italic seg,
                          underline := seg_underline seg\<rparr>
      in (seg_text seg,
          if seg_bold seg \<or> seg_italic seg \<or> seg_underline seg then Some attrs else None))"

text \<open>The calls of \<open>delta.insert\<close> that one line makes, in order.\<close>

definition lineInserts :: "jsstring \<Rightarrow> (jsstring \<times> Attrs option) list" where
  "lineInserts line =
     (if startsWith line (js ''> '')
      then [(drop 2 line, None), ([NL], Some (noAttrs\<lparr>blockquote := True\<rparr>))]
      else (case orderedMatch line of
              Some m \<Rightarrow> [(snd m, None), ([NL], Some (noAttrs\<lparr>list_fmt := Some Ordered\<rparr>))]
            | None \<Rightarrow>
                if startsWith line (js ''- '')
                then [(drop 2 line, None), ([NL], Some (noAttrs\<lparr>list_fmt := Some Bullet\<rparr>))]
                else map segmentInsert (extractBold line) @ [([NL], None)]))"

definition markdownInserts :: "jsstring \<Rightarrow> (jsstring \<times> Attrs option) list" where
  "markdownInserts markdown = concat (map lineInserts (split_nl markdown))"

definition markdownToDelta :: "jsstring \<Rightarrow> Delta" where
  "markdownToDelta markdown = foldl Delta_insert [] (markdownInserts markdown)"

section \<open>EmojiBlot\<close>

text \<open>
  The emoji registry (\<open>emojis.std\<close>) is a parameter of the blot: \<open>getEmojiVariantByKey\<close>
  and \<open>getEmojiVariantKeyByValue\<close> return a variant or a key, or throw, and
  \<open>isEmojiVariantValue\<close> is a test. An exception is the left summand.
\<close>

datatype BlotError = RegistryError jsstring | AssertionError | MissingEmojiData

record EmojiVariant =
  variant_key :: jsstring
  variant_value :: jsstring
  sheetX :: nat
  sheetY :: nat

text \<open>
  \<open>node.dataset\<close>: the attributes \<open>data-emoji-key\<close>, \<open>data-emoji\<close> and
  \<open>data-source\<close> of the node, each absent or a string.
\<close>

record Dataset =
  emojiKey :: "jsstring option"
  emoji :: "jsstring option"
  source :: "jsstring option"

text \<open>
  \<open>EmojiBlot.value(node)\<close>. A JavaScript string is truthy when it is defined and not
  empty.
\<close>

definition legacyValue :: "Dataset \<Rightarrow> BlotError + EmojiBlotValue" where
  "legacyValue ds =
     (case emoji ds of
        None \<Rightarrow> Inl MissingEmojiData
      | Some g \<Rightarrow> if g = [] then Inl MissingEmojiData
                  else Inr \<lparr>emoji_value = g, emoji_source = source ds\<rparr>)"

definition EmojiBlot_value ::
  "(jsstring \<Rightarrow> BlotError + EmojiVariant) \<Rightarrow> Dataset \<Rightarrow> BlotError + EmojiBlotValue" where
  "EmojiBlot_value getEmojiVariantByKey ds =
     (case emojiKey ds of
        None \<Rightarrow> legacyValue ds
      | Some k \<Rightarrow>
          if k = [] then legacyValue ds
          else (case getEmojiVariantByKey k of
                  Inl err \<Rightarrow> Inl err
                | Inr variant \<Rightarrow>
                    Inr \<lparr>emoji_value = variant_value variant, emoji_source = source ds\<rparr>))"

text \<open>
  \<open>EmojiBlot.create({value, source})\<close>. \<open>node0\<close> is the dataset of the node as
  \<open>super.create\<close> and \<open>createStaticEmojiBlot\<close> leave it; \<open>create\<close> then sets
  \<open>data-emoji-key\<close> and \<open>data-source\<close>.
\<close>

definition EmojiBlot_create ::
  "(jsstring \<Rightarrow> bool) \<Rightarrow> (jsstring \<Rightarrow> BlotError + jsstring) \<Rightarrow>
   (jsstring \<Rightarrow> BlotError + EmojiVariant) \<Rightarrow> Dataset \<Rightarrow> EmojiBlotValue \<Rightarrow> BlotError + Dataset" where
  "EmojiBlot_create isEmojiVariantValue getEmojiVariantKeyByValue getEmojiVariantByKey node0 v =
     (if \<not> isEmojiVariantValue (emoji_value v) then Inl AssertionError
      else (case getEmojiVariantKeyByValue (emoji_value v) of
              Inl err \<Rightarrow> Inl err
            | Inr variantKey \<Rightarrow>
                (case getEmojiVariantByKey variantKey of
                   Inl err \<Rightarrow> Inl err
                 | Inr variant \<Rightarrow>
                     Inr (node0\<lparr>emojiKey := Some variantKey,
                                source := Some (case emoji_source v of None \<Rightarrow> [] | Some s \<Rightarrow> s)\<rparr>))))"

section \<open>Notions used to state the properties\<close>

text \<open>The text of a document: the string inserts, concatenated; an embed has none.\<close>

definition docText :: "Delta \<Rightarrow> jsstring" where
  "docText ops = concat (map (\<lambda>op. case insert_val op of Str t \<Rightarrow> t | Embed e \<Rightarrow> []) ops)"

definition isEmbed :: "Op \<Rightarrow> bool" where
  "isEmbed op = (case insert_val op of Str t \<Rightarrow> False | Embed e \<Rightarrow> True)"

text \<open>
  The spans of a document: every code unit of its text with the truth value of the
  \<open>bold\<close> attribute of the operation that carries it. Two documents with the same
  spans have the same text and are bold on the same stretches of it, however the text is
  cut into operations.
\<close>

definition isBold :: "Op \<Rightarrow> bool" where
  "isBold op = (case attributes op of None \<Rightarrow> False | Some a \<Rightarrow> bold a)"

definition spans :: "Delta \<Rightarrow> (jschar \<times> bool) list" where
  "spans ops =
     concat (map (\<lambda>op. case insert_val op of Str t \<Rightarrow> map (\<lambda>c. (c, isBold op)) t
                        | Embed e \<Rightarrow> []) ops)"


text \<open>
  A line that takes one of the three block branches of \<open>markdownToDelta\<close>, and a
  line on which the parser finds no markup at all.
\<close>

definition hasBlockPrefix :: "jsstring \<Rightarrow> bool" where
  "hasBlockPrefix line =
     (startsWith line (js ''> '') \<or> (case orderedMatch line of Some m \<Rightarrow> True | None \<Rightarrow> False)
      \<or> startsWith line (js ''- ''))"

definition plainLine :: "jsstring \<Rightarrow> bool" where
  "plainLine line = (\<not> hasBlockPrefix line \<and> boldRegex_exec line = None)"

text \<open>The attribute records of the examples.\<close>

definition boldAttrs :: Attrs where
  "boldAttrs = noAttrs\<lparr>bold := True\<rparr>"

definition grinning :: EmojiBlotValue where
  "grinning = \<lparr>emoji_value = [0xD83D, 0xDE00], emoji_source = None\<rparr>"

text \<open>
  The \<open>bold\<close> flag and the spans of a sequence of \<open>delta.insert\<close> calls.
\<close>

definition callBold :: "jsstring \<times> Attrs option \<Rightarrow> bool" where
  "callBold c = (case snd c of None \<Rightarrow> False | Some a \<Rightarrow> bold a)"

definition callSpans :: "(jsstring \<times> Attrs option) list \<Rightarrow> (jschar \<times> bool) list" where
  "callSpans calls = concat (map (\<lambda>c. map (\<lambda>x. (x, callBold c)) (fst c)) calls)"

text \<open>
  The spans that the inline scan of a line, a whole line, and a text whose first line
  is the continuation of a line already begun contribute; \<open>linesOK\<close> says that no
  later line of such a text takes a block branch.
\<close>

definition inlineSpans :: "jsstring \<Rightarrow> (jschar \<times> bool) list" where
  "inlineSpans line = callSpans (map segmentInsert (extractBold line))"

definition lineSpans :: "jsstring \<Rightarrow> (jschar \<times> bool) list" where
  "lineSpans line = callSpans (lineInserts line)"

definition contSpans :: "jsstring \<Rightarrow> (jschar \<times> bool) list" where
  "contSpans s = inlineSpans (hd (split_nl s)) @ [(NL, False)] @ concat (map lineSpans (tl (split_nl s)))"

definition linesOK :: "jsstring \<Rightarrow> bool" where
  "linesOK s = (\<forall>line\<in>set (tl (split_nl s)). \<not> hasBlockPrefix line)"

text \<open>
  A plain or bold text run free of asterisks (a bold run is moreover non-empty and free
  of line terminators), and the markdown that \<open>deltaToMarkdown\<close> writes for it.
\<close>

definition plainOrBoldRun :: "Op \<Rightarrow> bool" where
  "plainOrBoldRun op =
     (case insert_val op of
        Embed e \<Rightarrow> False
      | Str t \<Rightarrow> STAR \<notin> set t \<and>
          (attributes op = None \<or>
           (attributes op = Some boldAttrs \<and> t \<noteq> [] \<and> list_all (\<lambda>x. \<not> isLineTerminator x) t)))"

definition renderRun :: "Op \<Rightarrow> jsstring" where
  "renderRun op =
     (case insert_val op of
        Embed e \<Rightarrow> []
      | Str t \<Rightarrow> if attributes op = None then t else STAR # STAR # t @ [STAR, STAR])"


text \<open>
  The loop variables of \<open>deltaToMarkdown\<close> after the iterations on the operations of the
  first list, when the operations of the second list follow them in the array (the
  lookahead \<open>ops[i + 1]\<close> of the last iteration reads the second list).
\<close>

fun emitRun :: "Op list \<Rightarrow> Op list \<Rightarrow> nat \<times> bool \<times> jsstring \<Rightarrow> nat \<times> bool \<times> jsstring" where
  "emitRun [] after st = st"
| "emitRun (op # rest) after st =
     (case insert_val op of
        Embed e \<Rightarrow> emitRun rest after st
      | Str text \<Rightarrow> emitRun rest after (emitStep text (attributes op) (rest @ after) st))"

text \<open>
  No embed of the document stands directly before a list or blockquote newline.
\<close>

fun embedsClear :: "Op list \<Rightarrow> bool" where
  "embedsClear [] = True"
| "embedsClear (op # rest) =
     ((if isEmbed op then \<not> nextIsFormattedNewline rest else True) \<and> embedsClear rest)"

text \<open>
  The content with \<open>**\<close> innermost, then \<open>*\<close>, then \<open><u>\<close>\<dots>\<open></u>\<close> outermost.
\<close>

definition wrapInline :: "Attrs \<Rightarrow> jsstring \<Rightarrow> jsstring" where
  "wrapInline a t =
     (if underline a then js ''<u>'' else []) @ (if italic a then js ''*'' else [])
     @ (if bold a then js ''**'' else []) @ t @ (if bold a then js ''**'' else [])
     @ (if italic a then js ''*'' else []) @ (if underline a then js ''</u>'' else [])"

text \<open>
  The spans without the plain (not bold) white space at their two ends.
\<close>

definition plainWsSpan :: "jschar \<times> bool \<Rightarrow> bool" where
  "plainWsSpan x = (\<not> snd x \<and> isWhiteSpace (fst x))"

definition trimSpans :: "(jschar \<times> bool) list \<Rightarrow> (jschar \<times> bool) list" where
  "trimSpans xs = rev (dropWhile plainWsSpan (rev (dropWhile plainWsSpan xs)))"

text \<open>
  A document with every unattributed text cut into operations of one code unit, an
  unattributed operation of white space only, a run of one code unit or a bold run, and the
  exploded document without the white-space operations at its two ends.
\<close>

definition explode :: "Op list \<Rightarrow> Op list" where
  "explode d =
     concat (map (\<lambda>op. case insert_val op of
                          Embed e \<Rightarrow> [op]
                        | Str t \<Rightarrow> if attributes op = None then map (\<lambda>c. textOp [c]) t else [op]) d)"

definition wsOp :: "Op \<Rightarrow> bool" where
  "wsOp op =
     (attributes op = None \<and>
      (case insert_val op of Embed e \<Rightarrow> False | Str t \<Rightarrow> list_all isWhiteSpace t))"

definition atomRun :: "Op \<Rightarrow> bool" where
  "atomRun op =
     (plainOrBoldRun op \<and>
      (case attributes op of None \<Rightarrow> (case insert_val op of Embed e \<Rightarrow> False | Str t \<Rightarrow> length t = 1)
       | Some a \<Rightarrow> True))"

definition trimOps :: "Op list \<Rightarrow> Op list" where
  "trimOps d = rev (dropWhile wsOp (rev (dropWhile wsOp (explode d))))"

text \<open>
  The markdown of a sequence of plain and bold runs, not yet trimmed.
\<close>

abbreviation render :: "Op list \<Rightarrow> jsstring" where
  "render d \<equiv> concat (map renderRun d)"

text \<open>A registry with one entry, for the examples of \<open>EmojiBlot\<close>.\<close>

definition sampleVariant :: EmojiVariant where
  "sampleVariant = \<lparr>variant_key = js ''1F600'', variant_value = [0xD83D, 0xDE00], sheetX = 32, sheetY = 46\<rparr>"

definition sampleByKey :: "jsstring \<Rightarrow> BlotError + EmojiVariant" where
  "sampleByKey k = (if k = js ''1F600'' then Inr sampleVariant else Inl (RegistryError k))"

definition sampleKeyByValue :: "jsstring \<Rightarrow> BlotError + jsstring" where
  "sampleKeyByValue g = (if g = [0xD83D, 0xDE00] then Inr (js ''1F600'') else Inl (RegistryError g))"

definition sampleIsValue :: "jsstring \<Rightarrow> bool" where
  "sampleIsValue g = (g = [0xD83D, 0xDE00])"

section \<open>Auxiliary facts\<close>

lemma js_lits:
  "js ''**'' = [STAR, STAR]" "js ''*'' = [STAR]" "js ''> '' = [0x3E, 0x20]"
  "js ''- '' = [0x2D, 0x20]" "js ''. '' = [0x2E, 0x20]"
  "js ''<u>'' = [0x3C, 0x75, 0x3E]" "js ''</u>'' = [0x3C, 0x2F, 0x75, 0x3E]"
  by (simp_all add: js_def)

lemma split_nl_nonempty: "split_nl s \<noteq> []"
  by (induction s) (auto split: list.splits)

lemma split_nl_join: "concat (map (\<lambda>l. l @ [NL]) (split_nl s)) = s @ [NL]"
  by (induction s) (auto split: list.splits simp: split_nl_nonempty)

lemma split_nl_no_newline: "NL \<notin> set s \<Longrightarrow> split_nl s = [s]"
  by (induction s) auto

lemma split_nl_lines: "l \<in> set (split_nl s) \<Longrightarrow> NL \<notin> set l"
  by (induction s arbitrary: l) (auto split: if_splits list.splits)


lemma trim_Nil: "trim [] = []"
  by (simp add: trim_def)

lemma startsWith2: "startsWith s [a, b] = (\<exists>r. s = a # b # r)"
  by (cases s; cases "tl s") (auto simp: startsWith_def)

lemma boldInner_nostar: "STAR \<notin> set cs \<Longrightarrow> boldInner acc cs = None"
  by (induction cs arbitrary: acc) (auto simp: js_lits startsWith2)

lemma boldRegex_exec_nostar: "STAR \<notin> set xs \<Longrightarrow> boldRegex_exec xs = None"
  by (induction xs) (auto simp: js_lits startsWith2)

lemma boldRegex_exec_skip:
  "c \<noteq> STAR \<Longrightarrow> boldRegex_exec (c # cs) =
     (case boldRegex_exec cs of None \<Rightarrow> None | Some (pre, inner, rest) \<Rightarrow> Some (c # pre, inner, rest))"
  by (simp add: js_lits startsWith2)

lemma Delta_insert_plain_Nil:
  "Delta_insert [] (t, None) = (if t = [] then [] else [textOp t])"
  by (simp add: Delta_insert_def Delta_push_def textOp_def normAttrs_def)

lemma Delta_insert_plain_text:
  "Delta_insert [textOp x] (t, None) = [textOp (x @ t)]"
  by (simp add: Delta_insert_def Delta_push_def textOp_def normAttrs_def)

lemma foldl_plain_text:
  "\<forall>c\<in>set calls. snd c = None \<Longrightarrow>
   foldl Delta_insert [textOp x] calls = [textOp (x @ concat (map fst calls))]"
proof (induction calls arbitrary: x)
  case Nil
  then show ?case by simp
next
  case (Cons c calls)
  obtain t where c: "c = (t, None)" using Cons.prems by (cases c) auto
  show ?case using Cons.IH [of "x @ t"] Cons.prems
    by (simp add: c Delta_insert_plain_text)
qed

lemma foldl_plain_Nil:
  "\<forall>c\<in>set calls. snd c = None \<Longrightarrow>
   foldl Delta_insert [] calls =
     (if concat (map fst calls) = [] then [] else [textOp (concat (map fst calls))])"
proof (induction calls)
  case Nil
  then show ?case by simp
next
  case (Cons c calls)
  obtain t where c: "c = (t, None)" using Cons.prems by (cases c) auto
  show ?case
  proof (cases "t = []")
    case True
    with Cons c show ?thesis by (simp add: Delta_insert_plain_Nil)
  next
    case False
    with Cons.prems c show ?thesis
      by (simp add: Delta_insert_plain_Nil foldl_plain_text)
  qed
qed

lemma extractBold_no_match:
  "boldRegex_exec line = None \<Longrightarrow> extractBold line = (if line \<noteq> [] then [plainSegment line] else [])"
  by (simp add: extractBold.simps)

lemma lineInserts_plainLine:
  "plainLine line \<Longrightarrow>
   lineInserts line = (if line \<noteq> [] then [(line, None)] else []) @ [([NL], None)]"
  by (auto simp: plainLine_def hasBlockPrefix_def lineInserts_def extractBold_no_match
      segmentInsert_def plainSegment_def split: option.splits)

lemma markdownToDelta_plain:
  assumes "\<forall>line\<in>set (split_nl s). plainLine line"
  shows "markdownToDelta s = [textOp (s @ [NL])]"
proof -
  let ?f = "\<lambda>line. (if line \<noteq> [] then [(line, None)] else []) @ [([NL], None :: Attrs option)]"
  have m: "map lineInserts (split_nl s) = map ?f (split_nl s)"
    using assms by (intro map_cong) (auto simp: lineInserts_plainLine)
  have p: "\<forall>c\<in>set (markdownInserts s). snd c = None"
    unfolding markdownInserts_def m by auto
  have "map fst (concat (map ?f ls)) = concat (map (\<lambda>l. if l \<noteq> [] then [l, [NL]] else [[NL]]) ls)" for ls
    by (induction ls) auto
  then have "concat (map fst (concat (map ?f ls))) = concat (map (\<lambda>l. l @ [NL]) ls)" for ls
    by (induction ls) auto
  then have t: "concat (map fst (markdownInserts s)) = s @ [NL]"
    unfolding markdownInserts_def m by (simp add: split_nl_join)
  show ?thesis
    unfolding markdownToDelta_def using foldl_plain_Nil [OF p] by (simp add: t)
qed

lemma emitStep_plain:
  "\<not> nextIsFormattedNewline rest \<Longrightarrow>
   snd (snd (emitStep text None rest st)) = snd (snd st) @ text"
  by (cases st) (simp add: emitStep_def Let_def)

lemma emitLoop_text:
  "\<forall>op\<in>set d. isEmbed op \<or> attributes op = None \<Longrightarrow>
   emitLoop d st = snd (snd st) @ docText d"
proof (induction d arbitrary: st)
  case Nil
  then show ?case by (simp add: docText_def)
next
  case (Cons op rest)
  have n: "\<not> nextIsFormattedNewline rest"
    using Cons.prems
    by (cases rest) (auto simp: nextIsFormattedNewline_def isFormattedNewline_def isEmbed_def
        split: InsertVal.splits)
  show ?case
  proof (cases "insert_val op")
    case (Str t)
    with Cons.prems have a: "attributes op = None" by (auto simp: isEmbed_def)
    show ?thesis
      using Cons.IH [of "emitStep t None rest st"] Cons.prems Str a emitStep_plain [OF n, of t st]
      by (simp add: docText_def)
  next
    case (Embed e)
    then show ?thesis using Cons.IH [of st] Cons.prems by (simp add: docText_def)
  qed
qed

lemma deltaToMarkdown_single: "deltaToMarkdown [textOp t] = trim t"
  by (simp add: deltaToMarkdown_def textOp_def emitStep_def nextIsFormattedNewline_def Let_def)

lemma deltaToMarkdown_fmt:
  "t \<noteq> [NL] \<Longrightarrow> deltaToMarkdown [fmtOp t a] =
     trim ((if underline a then js ''<u>'' else []) @ (if italic a then js ''*'' else [])
           @ (if bold a then js ''**'' else []) @ t @ (if bold a then js ''**'' else [])
           @ (if italic a then js ''*'' else []) @ (if underline a then js ''</u>'' else []))"
  by (simp add: deltaToMarkdown_def fmtOp_def emitStep_def nextIsFormattedNewline_def inlineFormat_def Let_def)

lemma emit_embeds: "\<forall>op\<in>set d. isEmbed op \<Longrightarrow> emitLoop d st = snd (snd st)"
  by (induction d arbitrary: st) (auto simp: isEmbed_def split: InsertVal.splits)

lemma Delta_insert_cases:
  assumes "t \<noteq> []"
  shows "Delta_insert ops (t, a) = ops @ [\<lparr>insert_val = Str t, attributes = normAttrs a\<rparr>]
         \<or> (\<exists>pre x. ops = pre @ [\<lparr>insert_val = Str x, attributes = normAttrs a\<rparr>]
               \<and> Delta_insert ops (t, a) = pre @ [\<lparr>insert_val = Str (x @ t), attributes = normAttrs a\<rparr>])"
proof (cases "ops = []")
  case True
  with assms show ?thesis by (simp add: Delta_insert_def Delta_push_def normAttrs_def)
next
  case False
  then have ops: "ops = butlast ops @ [last ops]" by simp
  show ?thesis
  proof (cases "insert_val (last ops)")
    case (Embed e)
    with assms False show ?thesis by (simp add: Delta_insert_def Delta_push_def normAttrs_def)
  next
    case (Str x)
    show ?thesis
    proof (cases "normAttrs a = attributes (last ops)")
      case True
      have "last ops = \<lparr>insert_val = Str x, attributes = normAttrs a\<rparr>"
        using Str True by (cases "last ops") simp
      with ops have "ops = butlast ops @ [\<lparr>insert_val = Str x, attributes = normAttrs a\<rparr>]"
        by simp
      moreover have "Delta_insert ops (t, a) = butlast ops @ [\<lparr>insert_val = Str (x @ t), attributes = normAttrs a\<rparr>]"
        using assms False Str True by (simp add: Delta_insert_def Delta_push_def normAttrs_def)
      ultimately show ?thesis by blast
    next
      case False
      with assms \<open>ops \<noteq> []\<close> Str show ?thesis
        by (simp add: Delta_insert_def Delta_push_def normAttrs_def)
    qed
  qed
qed

lemma Delta_insert_empty: "Delta_insert ops ([], a) = ops"
  by (simp add: Delta_insert_def)

lemma isBold_norm: "isBold \<lparr>insert_val = v, attributes = normAttrs a\<rparr> = callBold (t, a)"
  by (auto simp: isBold_def normAttrs_def callBold_def noAttrs_def split: option.splits)

lemma spans_Delta_insert:
  "spans (Delta_insert ops (t, a)) = spans ops @ map (\<lambda>x. (x, callBold (t, a))) t"
proof (cases "t = []")
  case True
  then show ?thesis by (simp add: Delta_insert_empty)
next
  case False
  from Delta_insert_cases [OF False, of ops a] show ?thesis
    by (auto simp: spans_def isBold_norm [of _ _ t])
qed

lemma spans_foldl:
  "spans (foldl Delta_insert ops calls) = spans ops @ callSpans calls"
proof (induction calls arbitrary: ops)
  case Nil
  then show ?case by (simp add: callSpans_def)
next
  case (Cons c calls)
  then show ?case by (cases c) (simp add: spans_Delta_insert callSpans_def)
qed

lemma spans_markdownToDelta:
  "spans (markdownToDelta s) = concat (map (\<lambda>l. callSpans (lineInserts l)) (split_nl s))"
proof -
  have "callSpans (concat xs) = concat (map callSpans xs)" for xs
    by (induction xs) (auto simp: callSpans_def)
  moreover have "spans [] = []" by (simp add: spans_def)
  ultimately show ?thesis
    by (simp add: markdownToDelta_def spans_foldl markdownInserts_def comp_def)
qed

lemma callSpans_simps:
  "callSpans [] = []"
  "callSpans (c # cs) = map (\<lambda>x. (x, callBold c)) (fst c) @ callSpans cs"
  "callSpans (xs @ ys) = callSpans xs @ callSpans ys"
  by (simp_all add: callSpans_def)

lemma segmentInsert_simps:
  "segmentInsert (plainSegment t) = (t, None)"
  "segmentInsert (boldSegment t) = (t, Some boldAttrs)"
  by (simp_all add: segmentInsert_def plainSegment_def boldSegment_def boldAttrs_def noAttrs_def)

lemma callBold_simps: "callBold (t, None) = False" "callBold (t, Some boldAttrs) = True"
  by (simp_all add: callBold_def boldAttrs_def noAttrs_def)

lemma inlineSpans_Nil: "inlineSpans [] = []"
  by (simp add: inlineSpans_def extractBold.simps callSpans_simps)

lemma inlineSpans_plain_char:
  assumes "c \<noteq> STAR"
  shows "inlineSpans (c # L) = (c, False) # inlineSpans L"
proof (cases "boldRegex_exec L")
  case None
  then have "boldRegex_exec (c # L) = None"
    using assms by (simp add: boldRegex_exec_skip del: boldRegex_exec.simps)
  with None show ?thesis
    by (simp add: inlineSpans_def extractBold_no_match callSpans_simps segmentInsert_simps callBold_simps)
next
  case (Some m)
  obtain pre inner rest where m: "m = (pre, inner, rest)" by (cases m)
  have e: "boldRegex_exec (c # L) = Some (c # pre, inner, rest)"
    using assms Some m by (simp add: boldRegex_exec_skip del: boldRegex_exec.simps)
  have "extractBold (c # L) = [plainSegment (c # pre)] @ [boldSegment inner] @ extractBold rest"
    by (subst extractBold.simps) (simp add: e del: boldRegex_exec.simps)
  moreover have "extractBold L = (if pre \<noteq> [] then [plainSegment pre] else []) @ [boldSegment inner] @ extractBold rest"
    by (subst extractBold.simps) (simp add: Some m)
  ultimately show ?thesis
    by (simp add: inlineSpans_def callSpans_simps segmentInsert_simps callBold_simps)
qed

lemma boldInner_run:
  "b \<noteq> [] \<Longrightarrow> STAR \<notin> set b \<Longrightarrow> \<forall>x\<in>set b. \<not> isLineTerminator x \<Longrightarrow>
   boldInner acc (b @ STAR # STAR # L) = Some (acc @ b, L)"
proof (induction b arbitrary: acc)
  case Nil
  then show ?case by simp
next
  case (Cons c b)
  show ?case
  proof (cases b)
    case Nil
    with Cons.prems show ?thesis by (simp add: js_lits startsWith2)
  next
    case (Cons c2 b2)
    with Cons.prems Cons.IH [of "acc @ [c]"] show ?thesis
      by (simp add: js_lits startsWith2)
  qed
qed

lemma inlineSpans_bold_run:
  assumes "b \<noteq> []" "STAR \<notin> set b" "\<forall>x\<in>set b. \<not> isLineTerminator x"
  shows "inlineSpans (STAR # STAR # b @ STAR # STAR # L) = map (\<lambda>x. (x, True)) b @ inlineSpans L"
proof -
  have "boldRegex_exec (STAR # STAR # b @ STAR # STAR # L) = Some ([], b, L)"
    using boldInner_run [OF assms, of "[]" L] by (simp add: js_lits startsWith2)
  then have "extractBold (STAR # STAR # b @ STAR # STAR # L) = [boldSegment b] @ extractBold L"
    by (subst extractBold.simps) (simp del: boldRegex_exec.simps)
  then show ?thesis
    by (simp add: inlineSpans_def callSpans_simps segmentInsert_simps callBold_simps)
qed

lemma lineSpans_no_prefix:
  "\<not> hasBlockPrefix line \<Longrightarrow> lineSpans line = inlineSpans line @ [(NL, False)]"
  by (auto simp: hasBlockPrefix_def lineSpans_def lineInserts_def inlineSpans_def callSpans_simps
      callBold_simps split: option.splits)

lemma split_nl_Cons_other:
  "c \<noteq> NL \<Longrightarrow> split_nl (c # s) = (c # hd (split_nl s)) # tl (split_nl s)"
  using split_nl_nonempty [of s] by (cases "split_nl s") auto

lemma split_nl_prefix:
  "NL \<notin> set p \<Longrightarrow> split_nl (p @ s) = (p @ hd (split_nl s)) # tl (split_nl s)"
proof (induction p)
  case Nil
  then show ?case using split_nl_nonempty [of s] by simp
next
  case (Cons c p)
  then show ?case by (simp add: split_nl_Cons_other)
qed

lemma contSpans_Nil: "contSpans [] = [(NL, False)]"
  by (simp add: contSpans_def inlineSpans_Nil)

lemma contSpans_plain_char:
  "c \<noteq> STAR \<Longrightarrow> c \<noteq> NL \<Longrightarrow> contSpans (c # Y) = (c, False) # contSpans Y"
  by (simp add: contSpans_def split_nl_Cons_other inlineSpans_plain_char del: split_nl.simps)

lemma contSpans_newline:
  assumes "\<not> hasBlockPrefix (hd (split_nl Y))"
  shows "contSpans (NL # Y) = (NL, False) # contSpans Y"
proof -
  have "split_nl Y = hd (split_nl Y) # tl (split_nl Y)"
    using split_nl_nonempty [of Y] by simp
  then have "concat (map lineSpans (split_nl Y)) = contSpans Y"
    using lineSpans_no_prefix [OF assms] unfolding contSpans_def
    by (metis append.assoc concat.simps(2) list.simps(9))
  then show ?thesis
    by (simp add: contSpans_def inlineSpans_Nil)
qed

lemma contSpans_bold_run:
  assumes "b \<noteq> []" "STAR \<notin> set b" "\<forall>x\<in>set b. \<not> isLineTerminator x"
  shows "contSpans (STAR # STAR # b @ STAR # STAR # Y) = map (\<lambda>x. (x, True)) b @ contSpans Y"
proof -
  have nl: "NL \<notin> set (STAR # STAR # b @ [STAR, STAR])"
    using assms(3) by (auto simp: isLineTerminator_def)
  have "split_nl ((STAR # STAR # b @ [STAR, STAR]) @ Y)
        = ((STAR # STAR # b @ [STAR, STAR]) @ hd (split_nl Y)) # tl (split_nl Y)"
    by (rule split_nl_prefix [OF nl])
  then show ?thesis
    using inlineSpans_bold_run [OF assms] by (simp add: contSpans_def)
qed

lemma linesOK_Cons_other: "c \<noteq> NL \<Longrightarrow> linesOK (c # Y) = linesOK Y"
  by (simp add: linesOK_def split_nl_Cons_other del: split_nl.simps)

lemma linesOK_prefix: "NL \<notin> set p \<Longrightarrow> linesOK (p @ Y) = linesOK Y"
  by (simp add: linesOK_def split_nl_prefix)

lemma linesOK_newline: "linesOK (NL # Y) \<Longrightarrow> linesOK Y \<and> \<not> hasBlockPrefix (hd (split_nl Y))"
  using split_nl_nonempty [of Y]
  by (cases "split_nl Y") (auto simp: linesOK_def)

lemma contSpans_plain_run:
  "STAR \<notin> set t \<Longrightarrow> linesOK (t @ Y) \<Longrightarrow>
   linesOK Y \<and> contSpans (t @ Y) = map (\<lambda>x. (x, False)) t @ contSpans Y"
proof (induction t)
  case Nil
  then show ?case by simp
next
  case (Cons c t)
  show ?case
  proof (cases "c = NL")
    case True
    with Cons.prems have "linesOK (t @ Y)" "\<not> hasBlockPrefix (hd (split_nl (t @ Y)))"
      using linesOK_newline [of "t @ Y"] by auto
    with Cons True show ?thesis by (simp add: contSpans_newline)
  next
    case False
    with Cons show ?thesis by (simp add: linesOK_Cons_other contSpans_plain_char)
  qed
qed

lemma plainOrBoldRun_not_formatted: "plainOrBoldRun op \<Longrightarrow> \<not> isFormattedNewline op"
  by (auto simp: plainOrBoldRun_def isFormattedNewline_def boldAttrs_def noAttrs_def
      split: InsertVal.splits option.splits)

lemma emitStep_run:
  assumes "plainOrBoldRun op" "insert_val op = Str t" "\<not> nextIsFormattedNewline rest"
  shows "snd (snd (emitStep t (attributes op) rest st)) = snd (snd st) @ renderRun op"
proof (cases "attributes op")
  case None
  with assms show ?thesis by (cases st) (simp add: emitStep_def Let_def renderRun_def)
next
  case (Some a)
  with assms have a: "a = boldAttrs" and t: "t \<noteq> [NL]"
    by (auto simp: plainOrBoldRun_def isLineTerminator_def)
  show ?thesis using assms(2,3) Some t
    by (cases st) (simp add: emitStep_def Let_def renderRun_def a inlineFormat_def boldAttrs_def
        noAttrs_def js_lits)
qed

lemma emitLoop_runs:
  "\<forall>op\<in>set d. plainOrBoldRun op \<Longrightarrow> emitLoop d st = snd (snd st) @ concat (map renderRun d)"
proof (induction d arbitrary: st)
  case Nil
  then show ?case by simp
next
  case (Cons op rest)
  have n: "\<not> nextIsFormattedNewline rest"
    using Cons.prems by (cases rest) (auto simp: nextIsFormattedNewline_def plainOrBoldRun_not_formatted)
  from Cons.prems obtain t where t: "insert_val op = Str t"
    by (cases "insert_val op") (auto simp: plainOrBoldRun_def)
  have "plainOrBoldRun op" using Cons.prems by simp
  from emitStep_run [OF this t n] Cons.IH [of "emitStep t (attributes op) rest st"] Cons.prems t
  show ?case by simp
qed

lemma spans_Cons_run:
  "insert_val op = Str t \<Longrightarrow> spans (op # d) = map (\<lambda>x. (x, isBold op)) t @ spans d"
  by (simp add: spans_def)

lemma contSpans_render:
  "\<forall>op\<in>set d. plainOrBoldRun op \<Longrightarrow> linesOK (concat (map renderRun d) @ Y) \<Longrightarrow>
   linesOK Y \<and> contSpans (concat (map renderRun d) @ Y) = spans d @ contSpans Y"
proof (induction d)
  case Nil
  then show ?case by (simp add: spans_def)
next
  case (Cons op d)
  let ?R = "concat (map renderRun d) @ Y"
  from Cons.prems obtain t where t: "insert_val op = Str t" and star: "STAR \<notin> set t"
    by (cases "insert_val op") (auto simp: plainOrBoldRun_def)
  show ?case
  proof (cases "attributes op")
    case None
    then have r: "renderRun op = t" and b: "\<not> isBold op"
      using t by (simp_all add: renderRun_def isBold_def)
    from Cons.prems(2) have "linesOK (t @ ?R)" by (simp add: r)
    from contSpans_plain_run [OF star this] Cons.IH Cons.prems(1)
    show ?thesis by (simp add: r spans_Cons_run [OF t] b)
  next
    case (Some a)
    with Cons.prems(1) t have a: "a = boldAttrs" and ne: "t \<noteq> []"
      and lt: "\<forall>x\<in>set t. \<not> isLineTerminator x"
      by (auto simp: plainOrBoldRun_def list_all_iff)
    have r: "renderRun op = STAR # STAR # t @ [STAR, STAR]" and b: "isBold op"
      using t Some a by (simp_all add: renderRun_def isBold_def boldAttrs_def)
    have nl: "NL \<notin> set (STAR # STAR # t @ [STAR, STAR])"
      using lt by (auto simp: isLineTerminator_def)
    from Cons.prems(2) have "linesOK ((STAR # STAR # t @ [STAR, STAR]) @ ?R)" by (simp add: r)
    then have ok: "linesOK ?R" by (simp only: linesOK_prefix [OF nl])
    from contSpans_bold_run [OF ne star lt, of ?R] Cons.IH [OF _ ok] Cons.prems(1)
    show ?thesis by (simp add: r spans_Cons_run [OF t] b)
  qed
qed

lemma Delta_insert_member:
  assumes "op \<in> set (Delta_insert ops (t, a))"
  shows "op \<in> set ops \<or> (\<exists>x. x \<noteq> [] \<and> op = \<lparr>insert_val = Str x, attributes = normAttrs a\<rparr>)"
proof (cases "t = []")
  case True
  with assms show ?thesis by (simp add: Delta_insert_empty)
next
  case False
  from Delta_insert_cases [OF False, of ops a] assms False show ?thesis by auto
qed

lemma foldl_Delta_insert_member:
  "op \<in> set (foldl Delta_insert ops calls) \<Longrightarrow>
   op \<in> set ops \<or> (\<exists>x c. x \<noteq> [] \<and> c \<in> set calls \<and> op = \<lparr>insert_val = Str x, attributes = normAttrs (snd c)\<rparr>)"
proof (induction calls arbitrary: ops)
  case Nil
  then show ?case by simp
next
  case (Cons c calls)
  obtain t a where c: "c = (t, a)" by (cases c)
  from Cons.IH [of "Delta_insert ops c"] Cons.prems
  consider "op \<in> set (Delta_insert ops c)"
    | "\<exists>x c'. x \<noteq> [] \<and> c' \<in> set calls \<and> op = \<lparr>insert_val = Str x, attributes = normAttrs (snd c')\<rparr>"
    by auto
  then show ?case
  proof cases
    case 1
    with Delta_insert_member [of op ops t a] c show ?thesis by auto
  next
    case 2
    then show ?thesis by auto
  qed
qed

lemma markdownToDelta_member:
  assumes "op \<in> set (markdownToDelta s)"
  shows "\<exists>x c. x \<noteq> [] \<and> c \<in> set (markdownInserts s) \<and> op = \<lparr>insert_val = Str x, attributes = normAttrs (snd c)\<rparr>"
  using foldl_Delta_insert_member [of op "[]" "markdownInserts s"] assms
  by (simp add: markdownToDelta_def)






lemma markdownToDelta_text_ops:
  "op \<in> set (markdownToDelta s) \<Longrightarrow> \<exists>x. x \<noteq> [] \<and> insert_val op = Str x"
  using markdownToDelta_member [of op s] by auto

lemma lineInserts_last: "lineInserts l \<noteq> [] \<and> fst (last (lineInserts l)) = [NL]"
  by (simp add: lineInserts_def split: option.splits)

lemma markdownInserts_last: "markdownInserts s \<noteq> [] \<and> fst (last (markdownInserts s)) = [NL]"
proof -
  obtain ls l where "split_nl s = ls @ [l]"
    using split_nl_nonempty [of s] by (cases "split_nl s" rule: rev_cases) auto
  then have "markdownInserts s = concat (map lineInserts ls) @ lineInserts l"
    by (simp add: markdownInserts_def)
  with lineInserts_last [of l] show ?thesis by simp
qed

lemma foldl_Delta_insert_last:
  assumes "calls \<noteq> []" "fst (last calls) = [NL]"
  shows "foldl Delta_insert ops calls \<noteq> [] \<and>
         (\<exists>u a. last (foldl Delta_insert ops calls) = \<lparr>insert_val = Str (u @ [NL]), attributes = a\<rparr>)"
proof -
  obtain a where l: "last calls = ([NL], a)" using assms(2) by (cases "last calls") auto
  have "calls = butlast calls @ [([NL], a)]" using assms(1) l by (metis append_butlast_last_id)
  then have "foldl Delta_insert ops calls = foldl Delta_insert ops (butlast calls @ [([NL], a)])"
    by simp
  then have f: "foldl Delta_insert ops calls = Delta_insert (foldl Delta_insert ops (butlast calls)) ([NL], a)"
    by (simp only: foldl_append foldl_Cons foldl_Nil)
  from Delta_insert_cases [of "[NL]" "foldl Delta_insert ops (butlast calls)" a]
  show ?thesis unfolding f by (auto intro: exI [of _ "[]"])
qed

lemma markdownToDelta_last:
  "markdownToDelta s \<noteq> [] \<and>
   (\<exists>u a. last (markdownToDelta s) = \<lparr>insert_val = Str (u @ [NL]), attributes = a\<rparr>)"
  unfolding markdownToDelta_def
  using foldl_Delta_insert_last [of "markdownInserts s" "[]"] markdownInserts_last [of s] by blast

lemma boldInner_set:
  "boldInner acc cs = Some (inner, rest) \<Longrightarrow> set inner \<subseteq> set acc \<union> set cs \<and> set rest \<subseteq> set cs"
proof (induction cs arbitrary: acc)
  case Nil
  then show ?case by simp
next
  case (Cons c cs)
  show ?case
  proof (cases "startsWith cs (js ''**'')")
    case True
    with Cons.prems have "inner = acc @ [c]" "rest = drop 2 cs" by (auto split: if_splits)
    then show ?thesis using set_drop_subset [of 2 cs] by auto
  next
    case False
    with Cons.prems have "boldInner (acc @ [c]) cs = Some (inner, rest)" by (auto split: if_splits)
    from Cons.IH [OF this] show ?thesis by auto
  qed
qed

lemma boldRegex_exec_set:
  "boldRegex_exec xs = Some (pre, inner, rest) \<Longrightarrow>
   set pre \<subseteq> set xs \<and> set inner \<subseteq> set xs \<and> set rest \<subseteq> set xs"
proof (induction xs arbitrary: pre)
  case Nil
  then show ?case by simp
next
  case (Cons c cs)
  show ?case
  proof (cases "if startsWith (c # cs) (js ''**'') then boldInner [] (drop 2 (c # cs)) else None")
    case None
    with Cons.prems obtain pre' where "boldRegex_exec cs = Some (pre', inner, rest)" "pre = c # pre'"
      by (auto split: option.splits)
    with Cons.IH [of pre'] show ?thesis by auto
  next
    case (Some m)
    with Cons.prems have m: "m = (inner, rest)" "pre = []"
      by (auto split: prod.splits)
    from Some m have "boldInner [] (drop 2 (c # cs)) = Some (inner, rest)"
      by (auto split: if_splits)
    from boldInner_set [OF this] set_drop_subset [of 2 "c # cs"] m show ?thesis by auto
  qed
qed

lemma extractBold_set: "seg \<in> set (extractBold line) \<Longrightarrow> set (seg_text seg) \<subseteq> set line"
proof (induction line rule: extractBold.induct)
  case (1 cur)
  show ?case
  proof (cases "boldRegex_exec cur")
    case None
    with "1.prems" show ?thesis
      by (simp add: extractBold_no_match plainSegment_def split: if_splits)
  next
    case (Some m)
    obtain pre inner rest where m: "m = (pre, inner, rest)" by (cases m)
    have e: "extractBold cur = (if pre \<noteq> [] then [plainSegment pre] else []) @ [boldSegment inner] @ extractBold rest"
      by (subst extractBold.simps) (simp add: Some m)
    from boldRegex_exec_set [of cur pre inner rest] Some m
    have s: "set pre \<subseteq> set cur" "set inner \<subseteq> set cur" "set rest \<subseteq> set cur" by auto
    from "1.prems" e consider "seg = plainSegment pre" | "seg = boldSegment inner" | "seg \<in> set (extractBold rest)"
      by (auto split: if_splits)
    then show ?thesis
    proof cases
      case 3
      from "1.IH" [OF Some m [symmetric] refl 3] s show ?thesis by auto
    qed (use s in \<open>auto simp: plainSegment_def boldSegment_def\<close>)
  qed
qed

lemma orderedMatch_body:
  assumes "orderedMatch line = Some m"
  shows "set (snd m) \<subseteq> set line"
proof -
  from assms obtain c r2 where r: "dropWhile isDigit line = c # r2"
    and m: "snd m = dropWhile isWhiteSpace r2"
    by (auto simp: orderedMatch_def Let_def split: if_splits list.splits)
  have "set (snd m) \<subseteq> set (c # r2)"
    unfolding m using set_dropWhileD [of _ isWhiteSpace r2] by auto
  also have "\<dots> \<subseteq> set line"
    unfolding r [symmetric] using set_dropWhileD [of _ isDigit line] by auto
  finally show ?thesis .
qed

lemma lineInserts_one_newline:
  assumes "NL \<notin> set line"
  shows "length (filter (\<lambda>c. fst c = [NL]) (lineInserts line)) = 1"
proof -
  have n: "t \<noteq> [NL]" if "set t \<subseteq> set line" for t
    using that assms by auto
  have d: "drop 2 line \<noteq> [NL]" by (rule n) (rule set_drop_subset)
  have o: "\<And>m. orderedMatch line = Some m \<Longrightarrow> snd m \<noteq> [NL]"
    by (rule n) (rule orderedMatch_body)
  have s: "\<And>seg. seg \<in> set (extractBold line) \<Longrightarrow> fst (segmentInsert seg) \<noteq> [NL]"
    using n extractBold_set by (simp add: segmentInsert_def Let_def)
  then have "filter (\<lambda>c. fst c = [NL]) (map segmentInsert (extractBold line)) = []"
    by (auto simp: filter_empty_conv)
  with d o show ?thesis
    by (auto simp: lineInserts_def split: option.splits)
qed

lemma markdownInserts_newlines:
  "length (filter (\<lambda>c. fst c = [NL]) (markdownInserts s)) = length (split_nl s)"
proof -
  have "\<forall>l\<in>set ls. NL \<notin> set l \<Longrightarrow>
        length (filter (\<lambda>c. fst c = [NL]) (concat (map lineInserts ls))) = length ls" for ls
    by (induction ls) (auto simp: lineInserts_one_newline)
  then show ?thesis unfolding markdownInserts_def using split_nl_lines by blast
qed

lemma markdownToDelta_no_embed: "op \<in> set (markdownToDelta s) \<Longrightarrow> \<not> isEmbed op"
  using markdownToDelta_text_ops [of op s] by (auto simp: isEmbed_def)

lemma emitStep_rest:
  assumes "nextIsFormattedNewline r = nextIsFormattedNewline r'" "nextAttributes r = nextAttributes r'"
  shows "emitStep t a r st = emitStep t a r' st"
  unfolding emitStep_def assms by (rule refl)



lemma orderedMatch_no_digit: "\<not> isDigit c \<Longrightarrow> orderedMatch (c # cs) = None"
  by (simp add: orderedMatch_def)

lemma plainLine_first:
  "\<not> isDigit c \<Longrightarrow> c \<noteq> 0x3E \<Longrightarrow> c \<noteq> 0x2D \<Longrightarrow> boldRegex_exec (c # cs) = None \<Longrightarrow> plainLine (c # cs)"
  by (simp add: plainLine_def hasBlockPrefix_def orderedMatch_no_digit js_lits startsWith2)

lemma markdownToDelta_one_plain_line:
  "NL \<notin> set line \<Longrightarrow> plainLine line \<Longrightarrow> markdownToDelta line = [textOp (line @ [NL])]"
  by (rule markdownToDelta_plain) (simp add: split_nl_no_newline)

lemma lineInserts_shape:
  assumes "NL \<notin> set line"
  shows "\<exists>cs a. lineInserts line = cs @ [([NL], a)] \<and> (\<forall>c\<in>set cs. NL \<notin> set (fst c))"
proof -
  have n: "NL \<notin> set t" if "set t \<subseteq> set line" for t
    using that assms by auto
  have d: "NL \<notin> set (drop 2 line)" by (rule n) (rule set_drop_subset)
  have o: "\<And>m. orderedMatch line = Some m \<Longrightarrow> NL \<notin> set (snd m)"
    by (rule n) (rule orderedMatch_body)
  have s: "\<forall>c\<in>set (map segmentInsert (extractBold line)). NL \<notin> set (fst c)"
    using n extractBold_set by (simp add: segmentInsert_def Let_def)
  show ?thesis
  proof (cases "startsWith line (js ''> '')")
    case True
    then show ?thesis using d by (simp add: lineInserts_def)
  next
    case bq: False
    show ?thesis
    proof (cases "orderedMatch line")
      case (Some m)
      then show ?thesis using bq o by (simp add: lineInserts_def)
    next
      case None
      show ?thesis
      proof (cases "startsWith line (js ''- '')")
        case True
        then show ?thesis using bq None d by (simp add: lineInserts_def)
      next
        case False
        then have "lineInserts line = map segmentInsert (extractBold line) @ [([NL], None)]"
          using bq None by (simp add: lineInserts_def)
        with s show ?thesis by blast
      qed
    qed
  qed
qed

lemma docText_spans: "docText d = map fst (spans d)"
  by (induction d) (auto simp: docText_def spans_def comp_def split: InsertVal.splits)

lemma callSpans_text: "map fst (callSpans calls) = concat (map fst calls)"
  by (induction calls) (auto simp: callSpans_def comp_def)

lemma docText_markdownToDelta:
  "docText (markdownToDelta s) = concat (map (\<lambda>l. concat (map fst (lineInserts l))) (split_nl s))"
  by (simp add: docText_spans spans_markdownToDelta map_concat comp_def callSpans_text)

lemma lineInserts_newline_chars:
  assumes "NL \<notin> set line"
  shows "filter (\<lambda>x. x = NL) (concat (map fst (lineInserts line))) = [NL]"
proof -
  from lineInserts_shape [OF assms] obtain cs a where
    l: "lineInserts line = cs @ [([NL], a)]" and c: "\<forall>c\<in>set cs. NL \<notin> set (fst c)" by blast
  have "filter (\<lambda>x. x = NL) (concat (map fst cs)) = []"
    using c by (auto simp: filter_empty_conv)
  then show ?thesis by (simp add: l)
qed

lemma markdownToDelta_newline_chars:
  "length (filter (\<lambda>x. x = NL) (docText (markdownToDelta s))) = length (split_nl s)"
proof -
  have "\<forall>l\<in>set ls. NL \<notin> set l \<Longrightarrow>
        length (filter (\<lambda>x. x = NL) (concat (map (\<lambda>l. concat (map fst (lineInserts l))) ls))) = length ls" for ls
    by (induction ls) (auto simp: lineInserts_newline_chars)
  then show ?thesis unfolding docText_markdownToDelta using split_nl_lines by blast
qed

lemma emitRun_append:
  "emitRun (xs @ ys) after st = emitRun ys after (emitRun xs (ys @ after) st)"
  by (induction xs arbitrary: st) (auto split: InsertVal.splits)

lemma emitLoop_emitRun: "emitLoop d st = snd (snd (emitRun d [] st))"
  by (induction d arbitrary: st) (auto split: InsertVal.splits)

lemma emitLoop_append: "emitLoop (pre @ post) st = emitLoop post (emitRun pre post st)"
  by (induction pre arbitrary: st) (auto split: InsertVal.splits)

lemma emitStep_markdown:
  "emitStep t a rest (li, sol, md) =
     (fst (emitStep t a rest (li, sol, [])), fst (snd (emitStep t a rest (li, sol, []))),
      md @ snd (snd (emitStep t a rest (li, sol, []))))"
  by (simp add: emitStep_def Let_def)

lemma emitLoop_markdown: "emitLoop d (li, sol, md) = md @ emitLoop d (li, sol, [])"
proof (induction d arbitrary: li sol md)
  case Nil
  then show ?case by simp
next
  case (Cons op d)
  show ?case
  proof (cases "insert_val op")
    case (Embed e)
    then show ?thesis using Cons.IH [of li sol md] by simp
  next
    case (Str t)
    obtain li' sol' x where e: "emitStep t (attributes op) d (li, sol, []) = (li', sol', x)"
      by (cases "emitStep t (attributes op) d (li, sol, [])") auto
    have "emitStep t (attributes op) d (li, sol, md) = (li', sol', md @ x)"
      by (subst emitStep_markdown) (simp add: e)
    then show ?thesis
      using Str e Cons.IH [of li' sol' "md @ x"] Cons.IH [of li' sol' x] by simp
  qed
qed

lemma emitStep_lookahead:
  assumes "nextIsFormattedNewline r = nextIsFormattedNewline r'"
    and "nextIsFormattedNewline r \<Longrightarrow> nextAttributes r = nextAttributes r'"
  shows "emitStep t a r st = emitStep t a r' st"
proof (cases "nextIsFormattedNewline r")
  case True
  with assms have "nextAttributes r = nextAttributes r'" by simp
  with assms(1) show ?thesis by (rule emitStep_rest)
next
  case False
  with assms(1) have "\<not> nextIsFormattedNewline r'" by simp
  with False show ?thesis by (cases st) (simp add: emitStep_def Let_def)
qed

lemma embed_not_formatted: "isEmbed op \<Longrightarrow> \<not> isFormattedNewline op"
  by (auto simp: isEmbed_def isFormattedNewline_def split: InsertVal.splits)

lemma lookahead_filter:
  "embedsClear r \<Longrightarrow>
   nextIsFormattedNewline (filter (\<lambda>op. \<not> isEmbed op) r) = nextIsFormattedNewline r"
  by (induction r) (auto simp: nextIsFormattedNewline_def embed_not_formatted)

lemma attributes_filter:
  "nextIsFormattedNewline r \<Longrightarrow> nextAttributes (filter (\<lambda>op. \<not> isEmbed op) r) = nextAttributes r"
  by (cases r) (auto simp: nextIsFormattedNewline_def nextAttributes_def embed_not_formatted)

lemma emitLoop_filter:
  "embedsClear d \<Longrightarrow> emitLoop (filter (\<lambda>op. \<not> isEmbed op) d) st = emitLoop d st"
proof (induction d arbitrary: st)
  case Nil
  then show ?case by simp
next
  case (Cons op d)
  then have c: "embedsClear d" by simp
  show ?case
  proof (cases "insert_val op")
    case (Embed e)
    then show ?thesis using Cons.IH [OF c, of st] by (simp add: isEmbed_def)
  next
    case (Str t)
    have "emitStep t (attributes op) (filter (\<lambda>op. \<not> isEmbed op) d) st = emitStep t (attributes op) d st"
      using lookahead_filter [OF c] attributes_filter [of d]
      by (intro emitStep_lookahead) auto
    then show ?thesis using Str Cons.IH [OF c] by (simp add: isEmbed_def)
  qed
qed

lemma emitLoop_remove_embed:
  assumes "isEmbed op" "\<not> nextIsFormattedNewline post"
  shows "emitLoop (pre @ op # post) st = emitLoop (pre @ post) st"
proof (induction pre arbitrary: st)
  case Nil
  then show ?case using assms(1) by (auto simp: isEmbed_def split: InsertVal.splits)
next
  case (Cons x pre)
  have "emitStep t a (pre @ op # post) st = emitStep t a (pre @ post) st" for t a st
  proof (cases pre)
    case Nil
    have "\<not> nextIsFormattedNewline (op # post)"
      using assms(1) by (simp add: nextIsFormattedNewline_def embed_not_formatted)
    with assms(2) show ?thesis unfolding Nil by (intro emitStep_lookahead) auto
  next
    case (Cons y ys)
    then show ?thesis
      by (intro emitStep_lookahead) (simp_all add: nextIsFormattedNewline_def nextAttributes_def)
  qed
  with Cons show ?case by (simp split: InsertVal.splits)
qed

lemma emitLoop_embed_any:
  assumes "isEmbed op" "isEmbed op'"
  shows "emitLoop (pre @ op # post) st = emitLoop (pre @ op' # post) st"
proof (induction pre arbitrary: st)
  case Nil
  then show ?case using assms by (auto simp: isEmbed_def split: InsertVal.splits)
next
  case (Cons x pre)
  have "emitStep t a (pre @ op # post) st = emitStep t a (pre @ op' # post) st" for t a st
  proof (cases pre)
    case Nil
    have "\<not> nextIsFormattedNewline (op # post)" "\<not> nextIsFormattedNewline (op' # post)"
      using assms by (simp_all add: nextIsFormattedNewline_def embed_not_formatted)
    then show ?thesis unfolding Nil by (intro emitStep_lookahead) auto
  next
    case (Cons y ys)
    then show ?thesis
      by (intro emitStep_lookahead) (simp_all add: nextIsFormattedNewline_def nextAttributes_def)
  qed
  with Cons show ?case by (simp split: InsertVal.splits)
qed

lemma emitRun_embed:
  "isEmbed op \<Longrightarrow> emitRun (pre @ [op]) post st = emitRun pre (op # post) st"
  by (simp add: emitRun_append isEmbed_def split: InsertVal.splits)

lemma inlineFormat_wrap: "inlineFormat a t = wrapInline a t"
  by (simp add: inlineFormat_def wrapInline_def Let_def)

lemma emitStep_attributed:
  assumes "t \<noteq> [NL]"
  shows "emitStep t (Some a) post S =
     (if fst (snd S) \<and> nextIsFormattedNewline post
        then snd (linePrefix (fst S) (nextAttributes post)) else fst S,
      fst (snd S) \<and> \<not> nextIsFormattedNewline post,
      snd (snd S)
        @ (if fst (snd S) \<and> nextIsFormattedNewline post
           then fst (linePrefix (fst S) (nextAttributes post)) else [])
        @ wrapInline a t)"
proof -
  have n: "wrapInline a t \<noteq> [NL]"
    using assms by (auto simp: wrapInline_def js_lits Cons_eq_append_conv append_eq_Cons_conv)
  show ?thesis
    using assms n by (cases S) (auto simp: emitStep_def Let_def inlineFormat_wrap)
qed

lemma explode_atom: "\<forall>op\<in>set d. plainOrBoldRun op \<Longrightarrow> \<forall>op\<in>set (explode d). atomRun op"
  by (auto simp: explode_def atomRun_def plainOrBoldRun_def textOp_def split: InsertVal.splits if_splits)

lemma render_explode: "\<forall>op\<in>set d. plainOrBoldRun op \<Longrightarrow> render (explode d) = render d"
proof (induction d)
  case Nil
  then show ?case by (simp add: explode_def)
next
  case (Cons op d)
  have e: "explode (op # d) = explode [op] @ explode d" by (simp add: explode_def)
  have "concat (map renderRun (map (\<lambda>c. textOp [c]) t)) = t" for t
    by (induction t) (auto simp: renderRun_def textOp_def)
  then have "render (explode [op]) = renderRun op"
    using Cons.prems by (auto simp: explode_def renderRun_def plainOrBoldRun_def split: InsertVal.splits)
  with Cons show ?case by (simp add: e)
qed

lemma spans_append: "spans (xs @ ys) = spans xs @ spans ys"
  by (simp add: spans_def)

lemma spans_explode: "\<forall>op\<in>set d. plainOrBoldRun op \<Longrightarrow> spans (explode d) = spans d"
proof (induction d)
  case Nil
  then show ?case by (simp add: explode_def)
next
  case (Cons op d)
  have e: "explode (op # d) = explode [op] @ explode d" by (simp add: explode_def)
  have "spans (map (\<lambda>c. textOp [c]) t) = map (\<lambda>c. (c, False)) t" for t
    by (induction t) (auto simp: spans_def textOp_def isBold_def)
  then have "spans (explode [op]) = spans [op]"
    using Cons.prems
    by (auto simp: explode_def spans_def isBold_def plainOrBoldRun_def split: InsertVal.splits)
  moreover have "spans (op # d) = spans [op] @ spans d" by (simp add: spans_def)
  ultimately show ?case using Cons by (simp add: e spans_append)
qed

lemma atomRun_cases:
  assumes "atomRun op"
  obtains (ws) c where "renderRun op = [c]" "spans [op] = [(c, False)]" "wsOp op" "isWhiteSpace c"
  | (plain) c where "renderRun op = [c]" "spans [op] = [(c, False)]" "\<not> wsOp op" "\<not> isWhiteSpace c"
  | (bold) b where "b \<noteq> []" "renderRun op = STAR # STAR # b @ [STAR, STAR]"
      "spans [op] = map (\<lambda>c. (c, True)) b" "\<not> wsOp op"
proof (cases "attributes op")
  case None
  with assms obtain c where c: "insert_val op = Str [c]"
    by (cases "insert_val op") (auto simp: atomRun_def length_Suc_conv)
  show ?thesis
  proof (cases "isWhiteSpace c")
    case True
    then show ?thesis using None c
      by (intro ws [of c]) (simp_all add: renderRun_def spans_def isBold_def wsOp_def)
  next
    case False
    then show ?thesis using None c
      by (intro plain [of c]) (simp_all add: renderRun_def spans_def isBold_def wsOp_def)
  qed
next
  case (Some a)
  with assms obtain b where b: "insert_val op = Str b" "b \<noteq> []" "a = boldAttrs"
    by (cases "insert_val op") (auto simp: atomRun_def plainOrBoldRun_def)
  show ?thesis using Some b
    by (intro bold [of b])
      (simp_all add: renderRun_def spans_def isBold_def wsOp_def boldAttrs_def noAttrs_def)
qed

lemma star_not_ws: "\<not> isWhiteSpace STAR"
  by (simp add: isWhiteSpace_def)

lemma render_dropWhile:
  "\<forall>op\<in>set e. atomRun op \<Longrightarrow> dropWhile isWhiteSpace (render e) = render (dropWhile wsOp e)"
proof (induction e)
  case Nil
  then show ?case by simp
next
  case (Cons op e)
  then have "atomRun op" by simp
  then show ?case using Cons by (cases rule: atomRun_cases) (simp_all add: star_not_ws)
qed

lemma spans_dropWhile:
  "\<forall>op\<in>set e. atomRun op \<Longrightarrow> dropWhile plainWsSpan (spans e) = spans (dropWhile wsOp e)"
proof (induction e)
  case Nil
  then show ?case by (simp add: spans_def)
next
  case (Cons op e)
  have s: "spans (op # x) = spans [op] @ spans x" for x by (simp add: spans_def)
  from Cons have "atomRun op" by simp
  then show ?case
  proof (cases rule: atomRun_cases)
    case (bold b)
    then obtain c b' where "b = c # b'" by (cases b) auto
    with bold show ?thesis by (simp add: s [of e] plainWsSpan_def)
  qed (use Cons in \<open>simp_all add: s [of e] s [of "dropWhile wsOp e"] plainWsSpan_def\<close>)
qed

lemma render_dropWhile_end:
  "\<forall>op\<in>set e. atomRun op \<Longrightarrow>
   rev (dropWhile isWhiteSpace (rev (render e))) = render (rev (dropWhile wsOp (rev e)))"
proof (induction e rule: rev_induct)
  case Nil
  then show ?case by simp
next
  case (snoc op e)
  then have "atomRun op" by simp
  then show ?case using snoc by (cases rule: atomRun_cases) (simp_all add: star_not_ws)
qed

lemma spans_dropWhile_end:
  "\<forall>op\<in>set e. atomRun op \<Longrightarrow>
   rev (dropWhile plainWsSpan (rev (spans e))) = spans (rev (dropWhile wsOp (rev e)))"
proof (induction e rule: rev_induct)
  case Nil
  then show ?case by (simp add: spans_def)
next
  case (snoc op e)
  from snoc have "atomRun op" by simp
  then show ?case
  proof (cases rule: atomRun_cases)
    case (bold b)
    then obtain c b' where "b = b' @ [c]" by (cases b rule: rev_cases) auto
    with bold show ?thesis by (simp add: spans_append plainWsSpan_def)
  qed (use snoc in \<open>simp_all add: spans_append plainWsSpan_def\<close>)
qed

lemma atomRun_dropWhile: "\<forall>op\<in>set e. atomRun op \<Longrightarrow> \<forall>op\<in>set (dropWhile wsOp e). atomRun op"
  using set_dropWhileD by fast

lemma render_trimOps:
  assumes "\<forall>op\<in>set d. plainOrBoldRun op"
  shows "render (trimOps d) = trim (render d)"
proof -
  have a: "\<forall>op\<in>set (explode d). atomRun op" by (rule explode_atom [OF assms])
  have "trim (render d) = trim (render (explode d))" by (simp add: render_explode [OF assms])
  also have "\<dots> = rev (dropWhile isWhiteSpace (rev (render (dropWhile wsOp (explode d)))))"
    by (simp only: trim_def render_dropWhile [OF a])
  also have "\<dots> = render (trimOps d)"
    unfolding trimOps_def by (rule render_dropWhile_end [OF atomRun_dropWhile [OF a]])
  finally show ?thesis by simp
qed

lemma spans_trimOps:
  assumes "\<forall>op\<in>set d. plainOrBoldRun op"
  shows "spans (trimOps d) = trimSpans (spans d)"
proof -
  have a: "\<forall>op\<in>set (explode d). atomRun op" by (rule explode_atom [OF assms])
  have "trimSpans (spans d) = trimSpans (spans (explode d))" by (simp add: spans_explode [OF assms])
  also have "\<dots> = rev (dropWhile plainWsSpan (rev (spans (dropWhile wsOp (explode d)))))"
    by (simp only: trimSpans_def spans_dropWhile [OF a])
  also have "\<dots> = spans (trimOps d)"
    unfolding trimOps_def by (rule spans_dropWhile_end [OF atomRun_dropWhile [OF a]])
  finally show ?thesis by simp
qed

lemma trimOps_runs:
  assumes "\<forall>op\<in>set d. plainOrBoldRun op"
  shows "\<forall>op\<in>set (trimOps d). plainOrBoldRun op"
proof -
  have "\<forall>op\<in>set (explode d). atomRun op" by (rule explode_atom [OF assms])
  then have "\<forall>op\<in>set (dropWhile wsOp (explode d)). atomRun op" by (rule atomRun_dropWhile)
  then have "\<forall>op\<in>set (rev (dropWhile wsOp (explode d))). atomRun op" by simp
  then have "\<forall>op\<in>set (dropWhile wsOp (rev (dropWhile wsOp (explode d)))). atomRun op"
    by (rule atomRun_dropWhile)
  then show ?thesis by (simp add: trimOps_def atomRun_def)
qed

lemma parse_render_spans:
  assumes "\<forall>op\<in>set d. plainOrBoldRun op"
    and "\<forall>line\<in>set (split_nl (render d)). \<not> hasBlockPrefix line"
  shows "spans (markdownToDelta (render d)) = spans d @ [(NL, False)]"
proof -
  let ?R = "render d"
  have ne: "split_nl ?R = hd (split_nl ?R) # tl (split_nl ?R)"
    using split_nl_nonempty [of ?R] by simp
  have h: "\<not> hasBlockPrefix (hd (split_nl ?R))"
    using assms(2) ne by (metis list.set_intros(1))
  have ok: "linesOK (?R @ [])"
    using assms(2) ne unfolding linesOK_def by (metis append_Nil2 list.set_intros(2))
  have "spans (markdownToDelta ?R) = concat (map lineSpans (split_nl ?R))"
    by (simp add: spans_markdownToDelta lineSpans_def [abs_def])
  also have "\<dots> = contSpans ?R"
    using lineSpans_no_prefix [OF h] ne unfolding contSpans_def
    by (metis append.assoc append_Cons append_Nil concat.simps(2) list.simps(9))
  also have "\<dots> = spans d @ [(NL, False)]"
    using contSpans_render [OF assms(1) ok] by (simp add: contSpans_Nil)
  finally show ?thesis .
qed

lemma numToString_1: "numToString (Suc 0) = [0x31]"
  by (simp add: numToString.simps)

section \<open>The claims\<close>

subsection \<open>C1: round trip of text and emoji embeds\<close>

text \<open>
  C1, counterexample. The claim says that \<open>markdownToDelta (deltaToMarkdown d)\<close> brings
  every Embed of \<open>d\<close> back as an Embed. For the document of the text \<open>hi\<close> followed
  by the emoji embed U+1F600 the round trip returns the single text operation
  \<open>hi\<newline>\<close>: the embed is gone.
\<close>

theorem emoji_round_trip_counterexample:
  "markdownToDelta (deltaToMarkdown [textOp (js ''hi''), embedOp grinning]) = [textOp (js ''hi\<newline>'')]"
  by code_simp

text \<open>
  C1, amended. For every document of unattributed text operations and embeds,
  \<open>deltaToMarkdown\<close> returns the trimmed text of the document (every embed is left out),
  no operation of the round trip is an embed, and when no line of that markdown carries
  markup (no block prefix, no complete bold span) the round trip is the single
  unattributed text operation holding the trimmed text followed by a newline: the plain
  text survives, the embeds do not.
\<close>

theorem emoji_round_trip_amended:
  assumes "\<forall>op\<in>set d. isEmbed op \<or> attributes op = None"
  shows "deltaToMarkdown d = trim (docText d)
     \<and> (\<forall>op\<in>set (markdownToDelta (deltaToMarkdown d)). \<not> isEmbed op)
     \<and> ((\<forall>line\<in>set (split_nl (trim (docText d))). plainLine line) \<longrightarrow>
          markdownToDelta (deltaToMarkdown d) = [textOp (trim (docText d) @ [NL])])"
proof -
  have e: "deltaToMarkdown d = trim (docText d)"
    using emitLoop_text [OF assms, of "(1, True, [])"] by (simp add: deltaToMarkdown_def)
  show ?thesis
    unfolding e using markdownToDelta_no_embed markdownToDelta_plain by blast
qed

text \<open>
  C1, witness: the text \<open> hi\<close>, the emoji embed and the text \<open>!\<newline>\<close>.
\<close>

theorem emoji_round_trip_witness:
  "list_all (\<lambda>op. isEmbed op \<or> attributes op = None)
     [textOp (js '' hi''), embedOp grinning, textOp (js ''!\<newline>'')]
   \<and> deltaToMarkdown [textOp (js '' hi''), embedOp grinning, textOp (js ''!\<newline>'')] = js ''hi!''
   \<and> markdownToDelta (deltaToMarkdown [textOp (js '' hi''), embedOp grinning, textOp (js ''!\<newline>'')])
       = [textOp (js ''hi!\<newline>'')]"
  using emoji_round_trip_amended [of "[textOp (js '' hi''), embedOp grinning, textOp (js ''!\<newline>'')]"]
  by code_simp

subsection \<open>C2: what deltaToMarkdown writes for an embed\<close>

text \<open>
  C2, counterexample. The claim says that an Embed is rendered as its glyph. The document
  of the single emoji embed U+1F600 (glyph \<open>D83D DE00\<close> in UTF-16) is emitted as the
  empty string.
\<close>

theorem embed_emit_counterexample:
  "deltaToMarkdown [embedOp grinning] = [] \<and> emoji_value grinning = [0xD83D, 0xDE00]"
  by code_simp

text \<open>
  C2, amended. \<open>deltaToMarkdown\<close> writes nothing for an embed: at every position of
  every document the iteration on an operation whose \<open>insert\<close> is not a string leaves
  \<open>markdown\<close>, \<open>listIndex\<close> and \<open>isStartOfLine\<close> as they were. Hence the markdown
  of a document in which no embed stands directly before a list or blockquote newline is
  the markdown of the document without its embeds; deleting one embed that does not stand
  directly before such a newline leaves the markdown unchanged; the markdown never depends
  on which embed stands at a position; an embed at the head of a document is skipped; and a
  document of embeds alone is emitted as the empty string.
\<close>

theorem embed_emit_amended:
  "(isEmbed op \<longrightarrow> emitRun (pre @ [op]) post st = emitRun pre (op # post) st)
   \<and> (embedsClear d \<longrightarrow> deltaToMarkdown d = deltaToMarkdown (filter (\<lambda>op. \<not> isEmbed op) d))
   \<and> (isEmbed op \<and> \<not> nextIsFormattedNewline post \<longrightarrow>
        deltaToMarkdown (pre @ op # post) = deltaToMarkdown (pre @ post))
   \<and> (isEmbed op \<and> isEmbed op' \<longrightarrow>
        deltaToMarkdown (pre @ op # post) = deltaToMarkdown (pre @ op' # post))
   \<and> deltaToMarkdown (embedOp e # d) = deltaToMarkdown d
   \<and> ((\<forall>op\<in>set d. isEmbed op) \<longrightarrow> deltaToMarkdown d = [])"
  using emit_embeds [of d "(1, True, [])"] emitLoop_filter [of d "(1, True, [])"]
    emitLoop_remove_embed [of op post pre "(1, True, [])"]
    emitLoop_embed_any [of op op' pre post "(1, True, [])"] emitRun_embed [of op pre post st]
  by (simp add: deltaToMarkdown_def embedOp_def trim_Nil)

text \<open>
  C2, witness: an embed between a bold text and a plain text, and a document of two embeds.
\<close>

theorem embed_emit_witness:
  "isEmbed (embedOp grinning)
   \<and> embedsClear [fmtOp (js ''hi'') boldAttrs, embedOp grinning, textOp (js ''!\<newline>'')]
   \<and> deltaToMarkdown [fmtOp (js ''hi'') boldAttrs, embedOp grinning, textOp (js ''!\<newline>'')]
       = js ''**hi**!''
   \<and> deltaToMarkdown [fmtOp (js ''hi'') boldAttrs, textOp (js ''!\<newline>'')] = js ''**hi**!''
   \<and> list_all isEmbed [embedOp grinning, embedOp \<lparr>emoji_value = js ''x'', emoji_source = None\<rparr>]
   \<and> deltaToMarkdown [embedOp grinning, embedOp \<lparr>emoji_value = js ''x'', emoji_source = None\<rparr>] = []"
  using embed_emit_amended [of "embedOp grinning" "[fmtOp (js ''hi'') boldAttrs]" "[textOp (js ''!\<newline>'')]"
      "(1, True, [])" "[fmtOp (js ''hi'') boldAttrs, embedOp grinning, textOp (js ''!\<newline>'')]"
      "embedOp grinning" grinning]
    embed_emit_amended [of "embedOp grinning" "[]" "[]" "(1, True, [])"
      "[embedOp grinning, embedOp \<lparr>emoji_value = js ''x'', emoji_source = None\<rparr>]" "embedOp grinning" grinning]
  by code_simp

subsection \<open>C3: renumbering of an ordered list\<close>

text \<open>
  C3. The claim says that the markdown \<open>5. foo\<newline>6. bar\<newline>\<close> is parsed and emitted
  again as \<open>1. foo\<newline>2. bar\<close>. The code returns \<open>1. foo\<newline>1. bar\<close>: at the newline
  that ends the first item the next operation is the text \<open>bar\<close>, not a formatted
  newline, so \<open>listIndex\<close> is reset to 1 before the second item is numbered.
\<close>

theorem list_renumbering_actual:
  "deltaToMarkdown (markdownToDelta (js ''5. foo\<newline>6. bar\<newline>'')) = js ''1. foo\<newline>1. bar''"
  by code_simp

text \<open>
  The same holds for any two items: two consecutive ordered items, neither a newline, are
  both numbered 1.
\<close>

lemma ordered_items_all_numbered_one:
  assumes "a \<noteq> [NL]" "b \<noteq> [NL]"
  shows "deltaToMarkdown
           [textOp a, fmtOp [NL] (noAttrs\<lparr>list_fmt := Some Ordered\<rparr>),
            textOp b, fmtOp [NL] (noAttrs\<lparr>list_fmt := Some Ordered\<rparr>)]
         = trim (js ''1. '' @ a @ [NL] @ js ''1. '' @ b @ [NL])"
  using assms
  by (simp add: deltaToMarkdown_def textOp_def fmtOp_def emitStep_def nextIsFormattedNewline_def
      isFormattedNewline_def nextAttributes_def linePrefix_def noAttrs_def Let_def numToString_1
      js_lits js_def)

subsection \<open>C4: nesting order of the inline markers\<close>

text \<open>
  C4, counterexample. The claim says that bold is the outermost wrapper and underline the
  innermost. A text that is bold, italic and underlined is emitted with \<open><u>\<close> outermost
  and \<open>**\<close> innermost.
\<close>

theorem nesting_order_counterexample:
  "deltaToMarkdown [fmtOp (js ''x'') (noAttrs\<lparr>bold := True, italic := True, underline := True\<rparr>)]
     = js ''<u>***x***</u>''"
  by code_simp

text \<open>
  C4, amended. Let \<open>op\<close> be an attributed text operation other than a newline, at any
  position of any document \<open>pre @ op # post\<close>. The markdown of the document is, trimmed:
  the markdown written for \<open>pre\<close>; the line prefix, when \<open>op\<close> starts a line that a list
  or blockquote newline ends; the content of \<open>op\<close> wrapped in a fixed order that depends
  on its attributes only, \<open>**\<close> innermost, then \<open>*\<close>, then \<open><u>\<close>\<dots>\<open></u>\<close>
  outermost; and the markdown that the loop writes for \<open>post\<close>. In particular the markdown
  of the one-operation document is the wrapped content, trimmed.
\<close>

theorem nesting_order_amended:
  assumes "insert_val op = Str t" "t \<noteq> [NL]" "attributes op = Some a"
  shows "deltaToMarkdown (pre @ op # post) =
     trim (snd (snd (emitRun pre (op # post) (1, True, [])))
           @ (if fst (snd (emitRun pre (op # post) (1, True, []))) \<and> nextIsFormattedNewline post
              then fst (linePrefix (fst (emitRun pre (op # post) (1, True, []))) (nextAttributes post))
              else [])
           @ ((if underline a then js ''<u>'' else []) @ (if italic a then js ''*'' else [])
              @ (if bold a then js ''**'' else []) @ t @ (if bold a then js ''**'' else [])
              @ (if italic a then js ''*'' else []) @ (if underline a then js ''</u>'' else []))
           @ emitLoop post
               (fst (emitRun (pre @ [op]) post (1, True, [])),
                fst (snd (emitRun (pre @ [op]) post (1, True, []))), []))
   \<and> deltaToMarkdown [op] =
       trim ((if underline a then js ''<u>'' else []) @ (if italic a then js ''*'' else [])
           @ (if bold a then js ''**'' else []) @ t @ (if bold a then js ''**'' else [])
           @ (if italic a then js ''*'' else []) @ (if underline a then js ''</u>'' else []))"
proof -
  let ?S = "emitRun pre (op # post) (1, True, [])"
  let ?S' = "emitRun (pre @ [op]) post (1, True, [])"
  have s': "?S' = emitStep t (Some a) post ?S"
    using assms by (simp add: emitRun_append)
  have "emitLoop (pre @ op # post) (1, True, []) = emitLoop post ?S'"
    using emitLoop_append [of "pre @ [op]" post "(1, True, [])"] by simp
  also have "\<dots> = snd (snd ?S') @ emitLoop post (fst ?S', fst (snd ?S'), [])"
    using emitLoop_markdown [of post "fst ?S'" "fst (snd ?S')" "snd (snd ?S')"] by simp
  finally have "emitLoop (pre @ op # post) (1, True, []) =
     snd (snd ?S') @ emitLoop post (fst ?S', fst (snd ?S'), [])" .
  moreover have "snd (snd ?S') = snd (snd ?S)
        @ (if fst (snd ?S) \<and> nextIsFormattedNewline post
           then fst (linePrefix (fst ?S) (nextAttributes post)) else [])
        @ wrapInline a t"
    unfolding s' by (subst emitStep_attributed [OF assms(2)]) simp
  moreover have "deltaToMarkdown [op] = trim (wrapInline a t)"
    using deltaToMarkdown_fmt [OF assms(2), of a] assms
    by (cases op) (simp add: fmtOp_def wrapInline_def)
  ultimately show ?thesis
    by (simp add: deltaToMarkdown_def wrapInline_def)
qed

text \<open>
  C4, witness: a bold, italic and underlined \<open>x\<close> as a bullet item after a line of plain
  text, and a bold and underlined \<open>y\<close> alone.
\<close>

theorem nesting_order_witness:
  "js ''x'' \<noteq> [NL]
   \<and> deltaToMarkdown [textOp (js ''a\<newline>''),
        fmtOp (js ''x'') (noAttrs\<lparr>bold := True, italic := True, underline := True\<rparr>),
        fmtOp [NL] (noAttrs\<lparr>list_fmt := Some Bullet\<rparr>)] = js ''a\<newline>- <u>***x***</u>''
   \<and> deltaToMarkdown [fmtOp (js ''y'') (noAttrs\<lparr>bold := True, underline := True\<rparr>)]
       = js ''<u>**y**</u>''"
  using nesting_order_amended [of "fmtOp (js ''x'') (noAttrs\<lparr>bold := True, italic := True, underline := True\<rparr>)"
      "js ''x''" "noAttrs\<lparr>bold := True, italic := True, underline := True\<rparr>" "[textOp (js ''a\<newline>'')]"
      "[fmtOp [NL] (noAttrs\<lparr>list_fmt := Some Bullet\<rparr>)]"]
    nesting_order_amended [of "fmtOp (js ''y'') (noAttrs\<lparr>bold := True, underline := True\<rparr>)"
      "js ''y''" "noAttrs\<lparr>bold := True, underline := True\<rparr>" "[]" "[]"]
  by code_simp

subsection \<open>C5: round trip of bold runs\<close>

text \<open>
  C5, counterexample. The claim says that plain text stays plain. The plain text
  \<open>**a**\<close> comes back as a bold \<open>a\<close>.
\<close>

theorem bold_round_trip_counterexample:
  "markdownToDelta (deltaToMarkdown [textOp (js ''**a**'')]) = [fmtOp (js ''a'') boldAttrs, textOp [NL]]"
  by code_simp

text \<open>
  C5, amended. Let every operation of \<open>d\<close> be a plain text run or a bold text run free
  of asterisks, a bold run being moreover non-empty and free of line terminators, and let no
  line of the markdown of \<open>d\<close> take a block branch of the parser. Then the round trip has
  the spans of \<open>d\<close> without the plain white space at their two ends (what \<open>trim\<close>
  removes), followed by one plain newline: the same text, bold on exactly the same
  stretches. In particular, when \<open>d\<close> ends with one plain newline and has no other plain
  white space at its ends, as the documents of the editor and of the parser do, the round
  trip has exactly the spans of \<open>d\<close>.
\<close>

theorem bold_round_trip_amended:
  assumes "\<forall>op\<in>set d. plainOrBoldRun op"
    and "\<forall>line\<in>set (split_nl (deltaToMarkdown d)). \<not> hasBlockPrefix line"
  shows "spans (markdownToDelta (deltaToMarkdown d)) = trimSpans (spans d) @ [(NL, False)]
     \<and> (spans d = trimSpans (spans d) @ [(NL, False)] \<longrightarrow>
          spans (markdownToDelta (deltaToMarkdown d)) = spans d)"
proof -
  have md: "deltaToMarkdown d = render (trimOps d)"
    using emitLoop_runs [OF assms(1), of "(1, True, [])"] render_trimOps [OF assms(1)]
    by (simp add: deltaToMarkdown_def)
  have "spans (markdownToDelta (render (trimOps d))) = spans (trimOps d) @ [(NL, False)]"
    using assms(2) unfolding md by (intro parse_render_spans trimOps_runs [OF assms(1)])
  then show ?thesis by (simp add: md spans_trimOps [OF assms(1)])
qed

text \<open>
  The restrictions of the amended claim are needed: a bold run with a carriage return comes
  back plain, a plain text that starts with \<open>- \<close> comes back as a bullet item without
  the prefix, and an empty bold run comes back as four literal asterisks. The third fact
  shows the trimming of leading white space.
\<close>

lemma bold_round_trip_limits:
  "markdownToDelta (deltaToMarkdown [fmtOp [0x61, 0x0D, 0x62] boldAttrs])
     = [textOp (js ''**a'' @ [0x0D] @ js ''b**\<newline>'')]"
  "markdownToDelta (deltaToMarkdown [textOp (js ''- a'')])
     = [textOp (js ''a''), fmtOp [NL] (noAttrs\<lparr>list_fmt := Some Bullet\<rparr>)]"
  "markdownToDelta (deltaToMarkdown [textOp (js '' a'')]) = [textOp (js ''a\<newline>'')]"
  "markdownToDelta (deltaToMarkdown [fmtOp [] boldAttrs]) = [textOp (js ''****\<newline>'')]"
  by code_simp+

text \<open>
  C5, witness: a document of two lines with bold runs that ends with a newline, and the
  document of a bold \<open>a\<close> and a newline, which the round trip returns unchanged.
\<close>

theorem bold_round_trip_witness:
  "list_all plainOrBoldRun
     [textOp (js ''a ''), fmtOp (js ''b'') boldAttrs, textOp (js ''\<newline>c''), fmtOp (js ''d '') boldAttrs,
      textOp (js ''\<newline>'')]
   \<and> list_all (\<lambda>line. \<not> hasBlockPrefix line) (split_nl (deltaToMarkdown
     [textOp (js ''a ''), fmtOp (js ''b'') boldAttrs, textOp (js ''\<newline>c''), fmtOp (js ''d '') boldAttrs,
      textOp (js ''\<newline>'')]))
   \<and> spans (markdownToDelta (deltaToMarkdown
     [textOp (js ''a ''), fmtOp (js ''b'') boldAttrs, textOp (js ''\<newline>c''), fmtOp (js ''d '') boldAttrs,
      textOp (js ''\<newline>'')]))
     = spans [textOp (js ''a ''), fmtOp (js ''b'') boldAttrs, textOp (js ''\<newline>c''),
              fmtOp (js ''d '') boldAttrs, textOp (js ''\<newline>'')]
   \<and> markdownToDelta (deltaToMarkdown [fmtOp (js ''a'') boldAttrs, textOp (js ''\<newline>'')])
     = [fmtOp (js ''a'') boldAttrs, textOp (js ''\<newline>'')]"
  using bold_round_trip_amended [of
     "[textOp (js ''a ''), fmtOp (js ''b'') boldAttrs, textOp (js ''\<newline>c''), fmtOp (js ''d '') boldAttrs,
      textOp (js ''\<newline>'')]"]
  by code_simp

subsection \<open>C6: italic and underline do not survive the round trip\<close>



subsection \<open>C7: markdownToDelta never fails\<close>

text \<open>
  C7. \<open>markdownToDelta\<close> is a total function of the string: the source has no
  \<open>throw\<close>, every library call it makes is defined on every string, and its only
  unbounded loop terminates (the termination proof of \<open>extractBold\<close>). For every
  sequence of code units the result is a non-empty document of non-empty text operations;
  when no line has a block prefix or a complete bold span the result is the input itself as
  one unattributed text operation; in particular an unclosed \<open>**\<close> stays literal text.
\<close>

theorem parse_never_fails:
  "markdownToDelta s \<noteq> []
   \<and> (\<forall>op\<in>set (markdownToDelta s). \<exists>x. x \<noteq> [] \<and> insert_val op = Str x)
   \<and> ((\<forall>line\<in>set (split_nl s). plainLine line) \<longrightarrow> markdownToDelta s = [textOp (s @ [NL])])
   \<and> (STAR \<notin> set t \<and> NL \<notin> set t \<longrightarrow> markdownToDelta (js ''**'' @ t) = [textOp (js ''**'' @ t @ [NL])])"
proof (intro conjI impI ballI)
  show "markdownToDelta s \<noteq> []" using markdownToDelta_last [of s] by simp
next
  fix op assume "op \<in> set (markdownToDelta s)"
  then show "\<exists>x. x \<noteq> [] \<and> insert_val op = Str x" by (rule markdownToDelta_text_ops)
next
  assume "\<forall>line\<in>set (split_nl s). plainLine line"
  then show "markdownToDelta s = [textOp (s @ [NL])]" by (rule markdownToDelta_plain)
next
  assume a: "STAR \<notin> set t \<and> NL \<notin> set t"
  have "boldRegex_exec (STAR # t) = None"
    using a boldRegex_exec_nostar [of t] by (cases t) (auto simp: js_lits startsWith2)
  then have "boldRegex_exec (STAR # STAR # t) = None"
    using a boldInner_nostar [of t "[]"] by (simp add: js_lits startsWith2)
  then have "plainLine (STAR # STAR # t)"
    by (intro plainLine_first) (simp_all add: isDigit_def)
  then have "markdownToDelta (STAR # STAR # t) = [textOp ((STAR # STAR # t) @ [NL])]"
    using a by (intro markdownToDelta_one_plain_line) auto
  then show "markdownToDelta (js ''**'' @ t) = [textOp (js ''**'' @ t @ [NL])]"
    by (simp add: js_lits)
qed

text \<open>
  C7, witness: stray list prefixes and unmatched asterisks, and an unclosed \<open>**\<close>.
\<close>

theorem parse_never_fails_witness:
  "list_all plainLine (split_nl (js ''1.foo\<newline>-bar *x** >''))
   \<and> markdownToDelta (js ''1.foo\<newline>-bar *x** >'') = [textOp (js ''1.foo\<newline>-bar *x** >\<newline>'')]
   \<and> STAR \<notin> set (js ''open'') \<and> NL \<notin> set (js ''open'')
   \<and> markdownToDelta (js ''**open'') = [textOp (js ''**open\<newline>'')]"
proof -
  have h1: "\<forall>line\<in>set (split_nl (js ''1.foo\<newline>-bar *x** >'')). plainLine line"
    by code_simp
  have h2: "STAR \<notin> set (js ''open'') \<and> NL \<notin> set (js ''open'')"
    by code_simp
  have "markdownToDelta (js ''1.foo\<newline>-bar *x** >'') = [textOp (js ''1.foo\<newline>-bar *x** >'' @ [NL])]"
    and "markdownToDelta (js ''**'' @ js ''open'') = [textOp (js ''**'' @ js ''open'' @ [NL])]"
    using parse_never_fails [of "js ''1.foo\<newline>-bar *x** >''" "js ''open''"] h1 h2 by blast+
  then show ?thesis using h1 h2 by (simp add: js_def list_all_iff)
qed

subsection \<open>C8: deltaToMarkdown on a document that breaks the invariant\<close>

text \<open>
  C8, counterexample. The claim says that a text operation with an embedded newline makes
  \<open>deltaToMarkdown\<close> fail. For the single text operation \<open>a\<newline>b\<close> it returns the
  markdown \<open>a\<newline>b\<close>.
\<close>

theorem malformed_document_counterexample:
  "deltaToMarkdown [textOp (js ''a\<newline>b'')] = js ''a\<newline>b''"
  by code_simp

text \<open>
  C8, amended. \<open>deltaToMarkdown\<close> validates nothing and has no error path: for every
  string, with or without embedded newlines, the markdown of the document of that one
  unattributed text operation is the string, trimmed.
\<close>

theorem emit_no_validation: "deltaToMarkdown [textOp t] = trim t"
  by (rule deltaToMarkdown_single)

text \<open>
  C8, witness: a text of three lines.
\<close>

theorem emit_no_validation_witness:
  "deltaToMarkdown [textOp (js ''one\<newline>two\<newline>three '')] = js ''one\<newline>two\<newline>three''"
  using emit_no_validation [of "js ''one\<newline>two\<newline>three ''"] by code_simp

subsection \<open>C9: what EmojiBlot.value and EmojiBlot.create do with the key\<close>

text \<open>
  C9, counterexample. The claim says that \<open>EmojiBlot.value\<close>, when it falls back to
  \<open>data-emoji\<close>, derives the key again through \<open>getEmojiVariantKeyByValue\<close>. For a
  legacy node whose \<open>data-emoji\<close> is \<open>junk\<close>, which the registry does not know,
  \<open>EmojiBlot.value\<close> returns \<open>junk\<close> as the value; the lookup of the claim would have
  thrown, as it does in \<open>EmojiBlot.create\<close>.
\<close>

theorem emoji_value_legacy_counterexample:
  "EmojiBlot_value sampleByKey \<lparr>emojiKey = None, emoji = Some (js ''junk''), source = None\<rparr>
     = Inr \<lparr>emoji_value = js ''junk'', emoji_source = None\<rparr>
   \<and> sampleIsValue (js ''junk'') = False
   \<and> sampleKeyByValue (js ''junk'') = Inl (RegistryError (js ''junk''))
   \<and> EmojiBlot_create sampleIsValue sampleKeyByValue sampleByKey
        \<lparr>emojiKey = None, emoji = None, source = None\<rparr>
        \<lparr>emoji_value = js ''junk'', emoji_source = None\<rparr> = Inl AssertionError"
  by (simp add: EmojiBlot_value_def legacyValue_def EmojiBlot_create_def sampleIsValue_def
      sampleKeyByValue_def js_def)

text \<open>
  C9, amended. When \<open>data-emoji-key\<close> holds a non-empty string, \<open>EmojiBlot.value\<close> is
  determined by the registry entry of the key (its glyph, or the registry's exception) and
  does not look at \<open>data-emoji\<close>. Otherwise it returns the glyph of \<open>data-emoji\<close> as it
  is, whatever the registry, without deriving a key (and throws when that is absent or empty
  too). A key is derived from a glyph by \<open>EmojiBlot.create\<close> only: for every value it
  throws when \<open>isEmojiVariantValue\<close> fails, and otherwise stores the key that
  \<open>getEmojiVariantKeyByValue\<close> returns in \<open>data-emoji-key\<close>, so that \<open>EmojiBlot.value\<close>
  of the new node reads the glyph through that key.
\<close>

theorem emoji_value_prefers_key:
  "(emojiKey ds = Some k \<and> k \<noteq> [] \<longrightarrow>
      EmojiBlot_value byKey ds =
        (case byKey k of Inl err \<Rightarrow> Inl err
         | Inr variant \<Rightarrow> Inr \<lparr>emoji_value = variant_value variant, emoji_source = source ds\<rparr>))
   \<and> (emojiKey ds = None \<or> emojiKey ds = Some [] \<longrightarrow>
        EmojiBlot_value byKey ds =
          (case emoji ds of None \<Rightarrow> Inl MissingEmojiData
           | Some g \<Rightarrow> if g = [] then Inl MissingEmojiData
                       else Inr \<lparr>emoji_value = g, emoji_source = source ds\<rparr>))
   \<and> (\<not> isValue (emoji_value v) \<longrightarrow>
        EmojiBlot_create isValue keyByValue byKey node0 v = Inl AssertionError)
   \<and> (isValue (emoji_value v) \<and> keyByValue (emoji_value v) = Inr k' \<and> byKey k' = Inr variant' \<longrightarrow>
        EmojiBlot_create isValue keyByValue byKey node0 v
          = Inr (node0\<lparr>emojiKey := Some k',
                       source := Some (case emoji_source v of None \<Rightarrow> [] | Some s \<Rightarrow> s)\<rparr>)
        \<and> (k' \<noteq> [] \<longrightarrow>
             EmojiBlot_value byKey
               (node0\<lparr>emojiKey := Some k',
                      source := Some (case emoji_source v of None \<Rightarrow> [] | Some s \<Rightarrow> s)\<rparr>)
             = Inr \<lparr>emoji_value = variant_value variant',
                    emoji_source = Some (case emoji_source v of None \<Rightarrow> [] | Some s \<Rightarrow> s)\<rparr>))"
  by (auto simp: EmojiBlot_value_def legacyValue_def EmojiBlot_create_def split: sum.splits option.splits)

text \<open>
  C9, witness: a node with a key and a stale glyph, a legacy node with a glyph only, and
  \<open>EmojiBlot.create\<close> on a known and on an unknown glyph.
\<close>

theorem emoji_value_prefers_key_witness:
  "EmojiBlot_value sampleByKey \<lparr>emojiKey = Some (js ''1F600''), emoji = Some (js ''junk''), source = None\<rparr>
     = Inr \<lparr>emoji_value = [0xD83D, 0xDE00], emoji_source = None\<rparr>
   \<and> EmojiBlot_value sampleByKey \<lparr>emojiKey = None, emoji = Some [0xD83D, 0xDE00], source = None\<rparr>
     = Inr \<lparr>emoji_value = [0xD83D, 0xDE00], emoji_source = None\<rparr>
   \<and> EmojiBlot_create sampleIsValue sampleKeyByValue sampleByKey
        \<lparr>emojiKey = None, emoji = None, source = None\<rparr>
        \<lparr>emoji_value = [0xD83D, 0xDE00], emoji_source = None\<rparr>
     = Inr \<lparr>emojiKey = Some (js ''1F600''), emoji = None, source = Some []\<rparr>
   \<and> EmojiBlot_create sampleIsValue sampleKeyByValue sampleByKey
        \<lparr>emojiKey = None, emoji = None, source = None\<rparr>
        \<lparr>emoji_value = js ''?'', emoji_source = None\<rparr> = Inl AssertionError"
  using
    emoji_value_prefers_key [of "\<lparr>emojiKey = Some (js ''1F600''), emoji = Some (js ''junk''), source = None\<rparr>"
      "js ''1F600''" sampleByKey sampleIsValue "\<lparr>emoji_value = [0xD83D, 0xDE00], emoji_source = None\<rparr>"
      sampleKeyByValue "\<lparr>emojiKey = None, emoji = None, source = None\<rparr>" "js ''1F600''" sampleVariant]
    emoji_value_prefers_key [of "\<lparr>emojiKey = None, emoji = Some [0xD83D, 0xDE00], source = None\<rparr>"
      "js ''1F600''" sampleByKey sampleIsValue "\<lparr>emoji_value = js ''?'', emoji_source = None\<rparr>"
      sampleKeyByValue "\<lparr>emojiKey = None, emoji = None, source = None\<rparr>" "js ''1F600''" sampleVariant]
  by (simp add: sampleByKey_def sampleKeyByValue_def sampleIsValue_def sampleVariant_def js_def)

subsection \<open>C10: one newline per line\<close>

text \<open>
  C10, counterexample. The claim says that the operations of the result end with a newline
  operation. For the input \<open>a\<close> the result is the single operation \<open>a\<newline>\<close>:
  \<open>Delta.insert\<close> joined the newline to the text before it.
\<close>

theorem newline_op_counterexample:
  "markdownToDelta (js ''a'') = [textOp (js ''a\<newline>'')]"
  by code_simp

text \<open>
  C10, amended. \<open>markdownToDelta\<close> calls \<open>delta.insert\<close> with \<open>\<newline>\<close> exactly once
  per line of the input, and the text of the result has exactly one newline per line; the
  result is never empty and its last operation is a text that ends with a newline (the
  newline alone, or joined to the text before it); the empty string is parsed to the one
  unattributed newline operation.
\<close>

theorem newline_per_line_amended:
  "length (filter (\<lambda>c. fst c = [NL]) (markdownInserts s)) = length (split_nl s)
   \<and> length (filter (\<lambda>x. x = NL) (docText (markdownToDelta s))) = length (split_nl s)
   \<and> markdownToDelta s \<noteq> []
   \<and> (\<exists>u a. last (markdownToDelta s) = \<lparr>insert_val = Str (u @ [NL]), attributes = a\<rparr>)
   \<and> markdownToDelta [] = [textOp [NL]]"
proof -
  have "markdownToDelta [] = [textOp [NL]]" by code_simp
  then show ?thesis
    using markdownInserts_newlines [of s] markdownToDelta_newline_chars [of s] markdownToDelta_last [of s]
    by simp
qed

text \<open>
  C10, witness: two lines, the second a bullet item.
\<close>

theorem newline_per_line_witness:
  "length (split_nl (js ''a\<newline>- b'')) = 2
   \<and> length (filter (\<lambda>c. fst c = [NL]) (markdownInserts (js ''a\<newline>- b''))) = 2
   \<and> markdownToDelta (js ''a\<newline>- b'')
       = [textOp (js ''a\<newline>b''), fmtOp [NL] (noAttrs\<lparr>list_fmt := Some Bullet\<rparr>)]"
proof -
  have l: "length (split_nl (js ''a\<newline>- b'')) = 2" by code_simp
  have e: "markdownToDelta (js ''a\<newline>- b'')
       = [textOp (js ''a\<newline>b''), fmtOp [NL] (noAttrs\<lparr>list_fmt := Some Bullet\<rparr>)]" by code_simp
  from newline_per_line_amended [of "js ''a\<newline>- b''"] l
  have "length (filter (\<lambda>c. fst c = [NL]) (markdownInserts (js ''a\<newline>- b''))) = 2" by simp
  with l e show ?thesis by simp
qed

end
